theory Spec2Isabelle
  imports Complex_Main "HOL-Library.AList" "HOL-Library.Char_ord"
begin

section \<open>JavaScript strings\<close>

text \<open>
  The extractor \<^verbatim>\<open>hybrid_extract.ts\<close> works on JavaScript strings, which are
  sequences of UTF-16 code units. A \<^typ>\<open>char\<close> stands for the code unit with the same
  number, so a \<^typ>\<open>string\<close> is a JavaScript string whose code units are all below 256
  (the Latin-1 repertoire); \<open>length\<close> is JavaScript's \<^verbatim>\<open>.length\<close> on such a
  string. The library functions the source calls (\<^verbatim>\<open>trim\<close>,
  \<^verbatim>\<open>toLowerCase\<close>, \<^verbatim>\<open>match\<close>, \<^verbatim>\<open>split\<close>) are modelled after
  ECMA-262 on that repertoire.
\<close>

definition code :: "char \<Rightarrow> nat" where
  "code c = of_char c"

text \<open>Code units are ordered by their numbers.\<close>

definition between :: "char \<Rightarrow> char \<Rightarrow> char \<Rightarrow> bool" where
  "between lo hi c = (lo \<le> c \<and> c \<le> hi)"

text \<open>
  WhiteSpace and LineTerminator of ECMA-262 below 256: TAB, LF, VT, FF, CR, SP and
  NBSP. This is the set \<^verbatim>\<open>\s\<close> matches and the set \<^verbatim>\<open>trim\<close> strips.
\<close>

definition isWhiteSpace :: "char \<Rightarrow> bool" where
  "isWhiteSpace c = (between (CHR 0x09) (CHR 0x0D) c \<or> c = CHR 0x20 \<or> c = CHR 0xA0)"

definition isDigit :: "char \<Rightarrow> bool" where
  "isDigit c = between CHR ''0'' CHR ''9'' c"

text \<open>The word characters of \<^verbatim>\<open>\b\<close>: letters, digits and the underscore.\<close>

definition isWordChar :: "char \<Rightarrow> bool" where
  "isWordChar c =
     (between CHR ''a'' CHR ''z'' c \<or> between CHR ''A'' CHR ''Z'' c \<or> isDigit c
      \<or> c = CHR ''_'')"

definition trimStart :: "string \<Rightarrow> string" where
  "trimStart s = dropWhile isWhiteSpace s"

definition trim :: "string \<Rightarrow> string" where
  "trim s = rev (trimStart (rev (trimStart s)))"

text \<open>
  \<^verbatim>\<open>toLowerCase\<close> and \<^verbatim>\<open>toUpperCase\<close>, code unit by code unit. Below 256 the
  letters with a lower-case partner are A-Z and U+00C0-U+00DE without the
  multiplication sign U+00D7; the upper-case partners of U+00B5 and U+00FF lie above
  255 and no code unit below 256 shares them, so \<open>upperChar\<close> leaves both in place
  (it is used only to compare code units under the \<^verbatim>\<open>i\<close> flag).
\<close>

definition lowerChar :: "char \<Rightarrow> char" where
  "lowerChar c =
     (if between CHR ''A'' CHR ''Z'' c \<or> (between (CHR 0xC0) (CHR 0xDE) c \<and> c \<noteq> CHR 0xD7)
      then char_of (code c + 32) else c)"

definition upperChar :: "char \<Rightarrow> char" where
  "upperChar c =
     (if between CHR ''a'' CHR ''z'' c \<or> (between (CHR 0xE0) (CHR 0xFE) c \<and> c \<noteq> CHR 0xF7)
      then char_of (code c - 32) else c)"

definition toLowerCase :: "string \<Rightarrow> string" where
  "toLowerCase s = map lowerChar s"

section \<open>Regular expressions\<close>

text \<open>
  The patterns of the source use literals, character classes, sequencing,
  alternation, greedy and lazy quantifiers, \<^verbatim>\<open>\b\<close>, and (in the sentence
  splitter) a look-behind on one character class and a look-ahead. There are no
  capture groups and no back-references, so a match is determined by where it ends.
\<close>

datatype citem = CChar char | CRange char char | CDigit | CSpace | CNonSpace

datatype regex =
    Epsilon
  | Lit char
  | Cls bool "citem list"
  | Seq regex regex
  | Alt regex regex
  | Rep nat "nat option" bool regex
  | WordB
  | Ahead regex
  | Behind bool "citem list"

text \<open>
  A position in the subject string: the code unit just before it (if any) and the
  text from it on.
\<close>

type_synonym pos = "char option \<times> string"

fun citem_has :: "citem \<Rightarrow> char \<Rightarrow> bool" where
  "citem_has (CChar a) c = (c = a)"
| "citem_has (CRange lo hi) c = between lo hi c"
| "citem_has CDigit c = isDigit c"
| "citem_has CSpace c = isWhiteSpace c"
| "citem_has CNonSpace c = (\<not> isWhiteSpace c)"

definition class_has :: "citem list \<Rightarrow> char \<Rightarrow> bool" where
  "class_has items c = list_ex (\<lambda>i. citem_has i c) items"

text \<open>
  CharacterSetMatcher: without the \<^verbatim>\<open>i\<close> flag the code unit must be in the set;
  with it, some member of the set must have the same canonical (upper-case) form,
  which below 256 means the code unit or its case partner is in the set. The
  \<open>invert\<close> flag of a negated class is applied to that outcome.
\<close>

definition class_found :: "bool \<Rightarrow> citem list \<Rightarrow> char \<Rightarrow> bool" where
  "class_found ic items c =
     (class_has items c \<or>
      (ic \<and> (class_has items (upperChar c) \<or> class_has items (lowerChar c))))"

definition lit_eq :: "bool \<Rightarrow> char \<Rightarrow> char \<Rightarrow> bool" where
  "lit_eq ic a c = (if ic then upperChar c = upperChar a else c = a)"

definition step_if :: "bool \<Rightarrow> pos \<Rightarrow> pos list" where
  "step_if ok x = (case snd x of [] \<Rightarrow> [] | c # cs \<Rightarrow> if ok then [(Some c, cs)] else [])"

definition next_char :: "pos \<Rightarrow> char option" where
  "next_char x = (case snd x of [] \<Rightarrow> None | c # cs \<Rightarrow> Some c)"

definition is_word_at :: "char option \<Rightarrow> bool" where
  "is_word_at oc = (case oc of None \<Rightarrow> False | Some c \<Rightarrow> isWordChar c)"

definition dec_max :: "nat option \<Rightarrow> nat option" where
  "dec_max mx = (case mx of None \<Rightarrow> None | Some k \<Rightarrow> Some (k - 1))"

text \<open>
  RepeatMatcher of ECMA-262. \<open>step\<close> matches the quantified atom once and returns
  the positions where it can end, best first. While \<open>mn\<close> iterations are still owed
  every iteration is taken; after that an iteration that consumes nothing is
  rejected, a greedy quantifier tries one more iteration before stopping and a lazy
  one stops before trying one more. A matcher only moves forward, so "consumes
  nothing" is "the rest did not get shorter".
\<close>

function rep :: "(pos \<Rightarrow> pos list) \<Rightarrow> bool \<Rightarrow> nat \<Rightarrow> nat option \<Rightarrow> pos \<Rightarrow> pos list" where
  "rep step greedy mn mx x =
     (if mx = Some 0 then [x]
      else if 0 < mn then
        concat (map (rep step greedy (mn - 1) (dec_max mx)) (step x))
      else
        (let more = concat (map (rep step greedy 0 (dec_max mx))
                           (filter (\<lambda>y. length (snd y) < length (snd x)) (step x)))
         in if greedy then more @ [x] else x # more))"
  by pat_completeness auto
termination
  by (relation "measures [\<lambda>(step, greedy, mn, mx, x). mn,
                          \<lambda>(step, greedy, mn, mx, x). length (snd x)]") auto

declare rep.simps [simp del]

text \<open>
  The backtracking matcher: \<open>matcher r ic x\<close> lists the positions where a match of
  \<open>r\<close> that starts at \<open>x\<close> can end, in the order in which a backtracking engine
  tries them. The first element is the match JavaScript reports.
\<close>

primrec matcher :: "regex \<Rightarrow> bool \<Rightarrow> pos \<Rightarrow> pos list" where
  "matcher Epsilon ic x = [x]"
| "matcher (Lit a) ic x =
     step_if (case next_char x of None \<Rightarrow> False | Some c \<Rightarrow> lit_eq ic a c) x"
| "matcher (Cls neg items) ic x =
     step_if (case next_char x of None \<Rightarrow> False | Some c \<Rightarrow> class_found ic items c \<noteq> neg) x"
| "matcher (Seq a b) ic x = concat (map (matcher b ic) (matcher a ic x))"
| "matcher (Alt a b) ic x = matcher a ic x @ matcher b ic x"
| "matcher (Rep mn mx greedy a) ic x = rep (matcher a ic) greedy mn mx x"
| "matcher WordB ic x =
     (if is_word_at (fst x) \<noteq> is_word_at (next_char x) then [x] else [])"
| "matcher (Ahead a) ic x = (if matcher a ic x = [] then [] else [x])"
| "matcher (Behind neg items) ic x =
     (case fst x of None \<Rightarrow> []
      | Some c \<Rightarrow> if class_found ic items c \<noteq> neg then [x] else [])"

text \<open>Shorthands for writing the patterns as the source does.\<close>

definition lits :: "string \<Rightarrow> regex" where
  "lits s = foldr (\<lambda>c r. Seq (Lit c) r) s Epsilon"

definition seqs :: "regex list \<Rightarrow> regex" where
  "seqs rs = foldr Seq rs Epsilon"

definition rplus :: "regex \<Rightarrow> regex" where
  "rplus r = Rep 1 None True r"

definition rplus_lazy :: "regex \<Rightarrow> regex" where
  "rplus_lazy r = Rep 1 None False r"

definition rstar :: "regex \<Rightarrow> regex" where
  "rstar r = Rep 0 None True r"

definition ropt :: "regex \<Rightarrow> regex" where
  "ropt r = Rep 0 (Some 1) True r"

definition rtimes :: "nat \<Rightarrow> nat \<Rightarrow> regex \<Rightarrow> regex" where
  "rtimes lo hi r = Rep lo (Some hi) True r"

text \<open>
  \<^verbatim>\<open>s.match(rx)\<close> for a pattern with the \<^verbatim>\<open>g\<close> flag: starting at index 0, find
  the leftmost position at or after the current one where the pattern matches, record
  the matched text, and go on from the end of the match (one code unit further when
  the match is empty). The source writes \<^verbatim>\<open>s.match(rx) || []\<close>, so no match is
  the empty list.
\<close>

function matchFrom :: "regex \<Rightarrow> bool \<Rightarrow> pos \<Rightarrow> string list" where
  "matchFrom r ic x =
     (case matcher r ic x of
        [] \<Rightarrow> (case snd x of [] \<Rightarrow> [] | c # cs \<Rightarrow> matchFrom r ic (Some c, cs))
      | e # es \<Rightarrow>
          if length (snd e) < length (snd x)
          then take (length (snd x) - length (snd e)) (snd x) # matchFrom r ic e
          else [] # (case snd x of [] \<Rightarrow> [] | c # cs \<Rightarrow> matchFrom r ic (Some c, cs)))"
  by pat_completeness auto
termination
  by (relation "measure (\<lambda>(r, ic, x). length (snd x))") auto

declare matchFrom.simps [simp del]

definition str_match :: "regex \<times> bool \<Rightarrow> string \<Rightarrow> string list" where
  "str_match rx s = matchFrom (fst rx) (snd rx) (None, s)"

text \<open>
  \<^verbatim>\<open>s.split(rx)\<close> (RegExp.prototype[Symbol.split], no limit, no captures). \<open>chunk\<close>
  is the text between the end \<open>p\<close> of the last separator and the current position
  \<open>q\<close>. At each \<open>q\<close> before the end the pattern is tried at exactly \<open>q\<close>; a match
  that ends at \<open>p\<close> (an empty match right after the last separator) is skipped,
  any other match closes the chunk and the scan resumes at its end. The empty subject
  is the special case of the standard.
\<close>

function splitFrom :: "regex \<Rightarrow> bool \<Rightarrow> string \<Rightarrow> pos \<Rightarrow> string list" where
  "splitFrom r ic chunk x =
     (case snd x of
        [] \<Rightarrow> [chunk]
      | c # cs \<Rightarrow>
          (case matcher r ic x of
             [] \<Rightarrow> splitFrom r ic (chunk @ [c]) (Some c, cs)
           | e # es \<Rightarrow>
               if length (snd e) < length (snd x) then chunk # splitFrom r ic [] e
               else if chunk = [] then splitFrom r ic (chunk @ [c]) (Some c, cs)
               else chunk # splitFrom r ic [] x))"
  by pat_completeness auto
termination
  by (relation "measures [\<lambda>(r, ic, chunk, x). length (snd x),
                          \<lambda>(r, ic, chunk, x). length chunk]") auto

declare splitFrom.simps [simp del]

definition str_split :: "regex \<times> bool \<Rightarrow> string \<Rightarrow> string list" where
  "str_split rx s =
     (if s = [] then (if matcher (fst rx) (snd rx) (None, []) = [] then [s] else [])
      else splitFrom (fst rx) (snd rx) [] (None, s))"

section \<open>Data model\<close>

text \<open>The Zod schemas of the source: \<^verbatim>\<open>CandidateKind\<close>, \<^verbatim>\<open>Candidate\<close> and
  \<^verbatim>\<open>ReferenceItem\<close>, and the page objects \<^verbatim>\<open>extractPages\<close> returns. Page
  numbers and anchor hints are integers (\<^verbatim>\<open>z.number().int()\<close>); a nullable field is
  an option; \<^verbatim>\<open>confidence\<close> is a number that is only compared and copied, never
  computed with.\<close>

datatype CandidateKind =
    K_circularCode
  | K_masterCircular
  | K_regulationSet
  | K_regulation
  | K_actSection
  | K_schedule
  | K_chapter
  | K_clause
  | K_url

datatype RefType =
    Circular
  | Master_Circular
  | Regulation
  | Act_Section
  | Schedule
  | Chapter
  | Clause
  | Stock_Exchange_Circular
  | Depository_Circular
  | URL
  | Other

record PageRecord =
  p_page :: int
  p_text :: string
  p_urls :: "string list"

record Candidate =
  c_page :: int
  c_sentence :: string
  c_match :: string
  c_kind :: CandidateKind
  c_url :: "string option"

record ReferenceItem =
  r_type :: RefType
  r_title :: "string option"
  r_identifier :: "string option"
  r_url :: "string option"
  r_anchorPageHint :: "int option"
  r_pages :: "int list"
  r_snippets :: "string list"
  r_confidence :: real

text \<open>The strings a template literal puts in for a kind, a type and a page number
  (an integer is printed with all its decimal digits, as JavaScript does below
  \<open>10\<^sup>2\<^sup>1\<close>).\<close>

fun kindName :: "CandidateKind \<Rightarrow> string" where
  "kindName K_circularCode = ''circularCode''"
| "kindName K_masterCircular = ''masterCircular''"
| "kindName K_regulationSet = ''regulationSet''"
| "kindName K_regulation = ''regulation''"
| "kindName K_actSection = ''actSection''"
| "kindName K_schedule = ''schedule''"
| "kindName K_chapter = ''chapter''"
| "kindName K_clause = ''clause''"
| "kindName K_url = ''url''"

fun typeName :: "RefType \<Rightarrow> string" where
  "typeName Circular = ''Circular''"
| "typeName Master_Circular = ''Master Circular''"
| "typeName Regulation = ''Regulation''"
| "typeName Act_Section = ''Act Section''"
| "typeName Schedule = ''Schedule''"
| "typeName Chapter = ''Chapter''"
| "typeName Clause = ''Clause''"
| "typeName Stock_Exchange_Circular = ''Stock Exchange Circular''"
| "typeName Depository_Circular = ''Depository Circular''"
| "typeName URL = ''URL''"
| "typeName Other = ''Other''"

fun natToString :: "nat \<Rightarrow> string" where
  "natToString n =
     (if n < 10 then [char_of (48 + n)]
      else natToString (n div 10) @ [char_of (48 + n mod 10)])"

declare natToString.simps [simp del]

definition numToString :: "int \<Rightarrow> string" where
  "numToString i = (if i < 0 then CHR ''-'' # natToString (nat (- i)) else natToString (nat i))"

section \<open>Patterns\<close>

text \<open>The table \<^verbatim>\<open>PATTERNS\<close>: each pattern with its \<^verbatim>\<open>i\<close> flag (all carry
  \<^verbatim>\<open>g\<close>). \<open>kinds\<close> is the order in which \<^verbatim>\<open>Object.entries(PATTERNS)\<close> lists
  them.\<close>

definition digit :: regex where
  "digit = Cls False [CDigit]"

definition space :: regex where
  "space = Cls False [CSpace]"

definition upperAZ :: citem where
  "upperAZ = CRange CHR ''A'' CHR ''Z''"

definition lowerAZ :: citem where
  "lowerAZ = CRange CHR ''a'' CHR ''z''"

definition digit09 :: citem where
  "digit09 = CRange CHR ''0'' CHR ''9''"

definition newline :: char where
  "newline = CHR 0x0A"

fun PATTERNS :: "CandidateKind \<Rightarrow> regex \<times> bool" where
  "PATTERNS K_circularCode =
     (seqs [lits ''SEBI/HO/'',
            rplus (Cls False [upperAZ, digit09, CChar CHR ''/'', CChar CHR ''-'']),
            Lit CHR ''/'', ropt (Lit CHR ''P''), lits ''/CIR/'',
            rtimes 4 4 digit, Lit CHR ''/'', rplus digit], False)"
| "PATTERNS K_masterCircular =
     (seqs [WordB, lits ''Master Circular '', Alt (lits ''for'') (lits ''on''), rplus space,
            rplus_lazy (Cls True [CChar CHR ''.'', CChar CHR '','', CChar CHR '';'', CChar newline]),
            ropt (seqs [lits ''dated'', rplus space, Cls False [upperAZ],
                        rplus (Cls False [lowerAZ]), rplus space, rtimes 1 2 digit,
                        Lit CHR '','', rstar space, rtimes 4 4 digit])], True)"
| "PATTERNS K_regulationSet =
     (seqs [lits ''SEBI'', rstar space, Lit CHR ''('', rplus (Cls True [CChar CHR '')'']),
            Lit CHR '')'', rstar space, lits ''Regulations,'', rstar space,
            rtimes 4 4 digit], True)"
| "PATTERNS K_regulation =
     (seqs [WordB, lits ''Regulation'', ropt (Lit CHR ''s''), rplus space, rplus digit,
            rstar (seqs [Lit CHR ''('', rplus (Cls False [digit09, upperAZ, lowerAZ]),
                         Lit CHR '')''])], False)"
| "PATTERNS K_actSection =
     (seqs [WordB, lits ''Section'', rplus space, rplus digit,
            rstar (seqs [Lit CHR ''('', rplus digit, Lit CHR '')'']),
            rplus space, lits ''of the'', rplus space,
            rplus_lazy (Cls True [CChar CHR ''.'', CChar CHR '','', CChar newline]),
            lits ''Act,'', rstar space, rtimes 4 4 digit], True)"
| "PATTERNS K_schedule =
     (seqs [WordB, lits ''Schedule'', rplus space,
            rplus (Cls False [CChar CHR ''I'', CChar CHR ''V'', CChar CHR ''X'',
                              CChar CHR ''L'', CChar CHR ''C'']), WordB], False)"
| "PATTERNS K_chapter =
     (seqs [WordB, lits ''Chapter'', rplus space, rplus digit, WordB], False)"
| "PATTERNS K_clause =
     (seqs [WordB, lits ''Clause'', rplus space, rplus digit,
            rstar (seqs [Lit CHR ''.'', rplus digit]), WordB], False)"
| "PATTERNS K_url =
     (seqs [WordB, lits ''http'', ropt (Lit CHR ''s''), lits ''://'',
            rplus (Cls False [CNonSpace])], True)"

definition kinds :: "CandidateKind list" where
  "kinds = [K_circularCode, K_masterCircular, K_regulationSet, K_regulation, K_actSection,
            K_schedule, K_chapter, K_clause, K_url]"

section \<open>Sentence segmentation\<close>

text \<open>The separator of \<^verbatim>\<open>splitSentences\<close>: after one of \<^verbatim>\<open>. ? ! ;\<close>, a run of
  white space, before an upper-case letter, an opening parenthesis or a quotation
  mark. The source's class also lists the left double quotation mark U+201C, a code
  unit above 255 that no string of this model contains.\<close>

definition sentenceBreak :: "regex \<times> bool" where
  "sentenceBreak =
     (seqs [Behind False [CChar CHR ''.'', CChar CHR ''?'', CChar CHR ''!'', CChar CHR '';''],
            rplus space,
            Ahead (Cls False [upperAZ, CChar CHR ''('', CChar CHR 0x22, CChar CHR 0x27])],
      False)"

definition splitSentences :: "string \<Rightarrow> string list" where
  "splitSentences text =
     (let chunks = filter (\<lambda>t. t \<noteq> []) (map trim (str_split sentenceBreak text))
      in if chunks \<noteq> [] then chunks else [trim text])"

section \<open>Candidate detection\<close>

definition firstUrl :: "string \<Rightarrow> string option" where
  "firstUrl s = (case str_match (PATTERNS K_url) s of [] \<Rightarrow> None | u # us \<Rightarrow> Some u)"

definition sentenceCandidates :: "int \<Rightarrow> string \<Rightarrow> Candidate list" where
  "sentenceCandidates pg s =
     (let urlInSentence = firstUrl s
      in concat (map (\<lambda>kind.
           map (\<lambda>m. \<lparr>c_page = pg, c_sentence = trim s, c_match = trim m, c_kind = kind,
                      c_url = urlInSentence\<rparr>)
               (str_match (PATTERNS kind) s)) kinds))"

definition linkCandidate :: "int \<Rightarrow> string \<Rightarrow> Candidate" where
  "linkCandidate pg u =
     \<lparr>c_page = pg, c_sentence = [], c_match = u, c_kind = K_url, c_url = Some u\<rparr>"

definition pageCandidates :: "PageRecord \<Rightarrow> Candidate list" where
  "pageCandidates p =
     concat (map (sentenceCandidates (p_page p)) (splitSentences (p_text p)))
     @ map (linkCandidate (p_page p)) (p_urls p)"

definition candidateKey :: "Candidate \<Rightarrow> string" where
  "candidateKey c =
     numToString (c_page c) @ ''|'' @ kindName (c_kind c) @ ''|'' @ c_match c @ ''|''
     @ c_sentence c"

text \<open>A JavaScript \<^verbatim>\<open>Map\<close> with string keys is an association list in insertion
  order: \<^verbatim>\<open>has\<close>/\<^verbatim>\<open>get\<close> is \<open>map_of\<close>, \<^verbatim>\<open>set\<close> replaces the value of a key in
  place or appends a new key, \<^verbatim>\<open>values()\<close> is \<open>map snd\<close>.\<close>

definition uniqStep :: "Candidate \<Rightarrow> (string \<times> Candidate) list \<Rightarrow> (string \<times> Candidate) list" where
  "uniqStep c uniq =
     (let k = candidateKey c
      in if map_of uniq k = None then AList.update k c uniq else uniq)"

definition findCandidates :: "PageRecord list \<Rightarrow> Candidate list" where
  "findCandidates pages =
     (let results = concat (map pageCandidates pages)
      in map snd (fold uniqStep results []))"

section \<open>Rules-only normalization, merge and the run\<close>

fun kindType :: "CandidateKind \<Rightarrow> RefType" where
  "kindType K_masterCircular = Master_Circular"
| "kindType K_circularCode = Circular"
| "kindType K_regulation = Regulation"
| "kindType K_regulationSet = Regulation"
| "kindType K_actSection = Act_Section"
| "kindType K_schedule = Schedule"
| "kindType K_chapter = Chapter"
| "kindType K_clause = Clause"
| "kindType K_url = URL"

text \<open>\<^verbatim>\<open>c.sentence || c.match\<close>: the empty string is falsy.\<close>

definition sentenceOrMatch :: "Candidate \<Rightarrow> string" where
  "sentenceOrMatch c = (if c_sentence c = [] then c_match c else c_sentence c)"

definition rulesOnly :: "Candidate \<Rightarrow> ReferenceItem" where
  "rulesOnly c =
     \<lparr>r_type = kindType (c_kind c),
      r_title = None,
      r_identifier =
        (if c_kind c = K_circularCode \<or> c_kind c = K_regulation then Some (c_match c) else None),
      r_url = (if c_kind c = K_url then Some (c_match c) else c_url c),
      r_anchorPageHint = None,
      r_pages = [c_page c],
      r_snippets = [sentenceOrMatch c],
      r_confidence = 4 / 10\<rparr>"

text \<open>\<^verbatim>\<open>Array.from(new Set(xs))\<close>: the elements in the order of their first
  occurrence.\<close>

definition setAdd :: "'a \<Rightarrow> 'a list \<Rightarrow> 'a list" where
  "setAdd x acc = (if x \<in> set acc then acc else acc @ [x])"

definition arrayFromSet :: "'a list \<Rightarrow> 'a list" where
  "arrayFromSet xs = fold setAdd xs []"

text \<open>\<^verbatim>\<open>r.identifier || ""\<close>: null and the empty string both give the empty string.\<close>

definition orEmpty :: "string option \<Rightarrow> string" where
  "orEmpty v = (case v of None \<Rightarrow> [] | Some s \<Rightarrow> s)"

definition key :: "ReferenceItem \<Rightarrow> string" where
  "key r =
     typeName (r_type r) @ ''|'' @ toLowerCase (orEmpty (r_identifier r)) @ ''|''
     @ toLowerCase (orEmpty (r_title r))"

text \<open>Truthiness of a nullable string and of a nullable integer: null, the empty
  string and 0 are falsy.\<close>

definition truthyStr :: "string option \<Rightarrow> bool" where
  "truthyStr v = (case v of None \<Rightarrow> False | Some s \<Rightarrow> s \<noteq> [])"

definition truthyInt :: "int option \<Rightarrow> bool" where
  "truthyInt v = (case v of None \<Rightarrow> False | Some n \<Rightarrow> n \<noteq> 0)"

text \<open>The two branches of the loop body of \<^verbatim>\<open>dedupe\<close>: what is stored for the first
  record of a key, and what a later record \<open>r\<close> of that key does to the stored record
  \<open>found\<close>.\<close>

definition firstSeen :: "ReferenceItem \<Rightarrow> ReferenceItem" where
  "firstSeen r =
     r\<lparr>r_pages := sort (arrayFromSet (r_pages r)),
       r_snippets := arrayFromSet (r_snippets r)\<rparr>"

definition mergeInto :: "ReferenceItem \<Rightarrow> ReferenceItem \<Rightarrow> ReferenceItem" where
  "mergeInto found r =
     found\<lparr>r_pages := sort (arrayFromSet (r_pages found @ r_pages r)),
           r_snippets := arrayFromSet (r_snippets found @ r_snippets r),
           r_confidence := max (r_confidence found) (r_confidence r),
           r_url := (if \<not> truthyStr (r_url found) \<and> truthyStr (r_url r)
                     then r_url r else r_url found),
           r_anchorPageHint :=
             (if \<not> truthyInt (r_anchorPageHint found) \<and> truthyInt (r_anchorPageHint r)
              then r_anchorPageHint r else r_anchorPageHint found)\<rparr>"

definition dedupeStep :: "ReferenceItem \<Rightarrow> (string \<times> ReferenceItem) list \<Rightarrow> (string \<times> ReferenceItem) list" where
  "dedupeStep r m =
     (case map_of m (key r) of
        None \<Rightarrow> AList.update (key r) (firstSeen r) m
      | Some found \<Rightarrow> AList.update (key r) (mergeInto found r) m)"

definition dedupe :: "ReferenceItem list \<Rightarrow> ReferenceItem list" where
  "dedupe items = map snd (fold dedupeStep items [])"

text \<open>The run, from the extracted pages on. \<open>Inr refs\<close> is a run that writes
  \<open>refs\<close> as its JSON output and ends normally; \<open>Inl e\<close> is a run that ends in the
  \<^verbatim>\<open>catch\<close> handler with exit status 1. The language-model normalizer is outside the
  program: it is a parameter that returns records or fails.\<close>

datatype error = Fatal string

definition main :: "bool \<Rightarrow> (Candidate list \<Rightarrow> nat \<Rightarrow> error + ReferenceItem list) \<Rightarrow> nat
    \<Rightarrow> PageRecord list \<Rightarrow> error + ReferenceItem list" where
  "main noLlm normalizeWithLLM batchSize pages =
     (let candidates = findCandidates pages
      in if candidates = [] then Inr []
         else if noLlm then Inr (dedupe (map rulesOnly candidates))
         else (case normalizeWithLLM candidates batchSize of
                 Inl e \<Rightarrow> Inl e
               | Inr normalized \<Rightarrow> Inr (dedupe normalized)))"

section \<open>Vocabulary of the properties\<close>

text \<open>A split point, in the words of the segmenter's description: a sentence
  terminator, then white space, then an upper-case letter, an opening parenthesis or
  a quotation mark.\<close>

definition isTerminator :: "char \<Rightarrow> bool" where
  "isTerminator c = (c = CHR ''.'' \<or> c = CHR ''?'' \<or> c = CHR ''!'' \<or> c = CHR '';'')"

definition isOpener :: "char \<Rightarrow> bool" where
  "isOpener c = (between CHR ''A'' CHR ''Z'' c \<or> c = CHR ''('' \<or> c = CHR 0x22 \<or> c = CHR 0x27)"

definition opensNext :: "string \<Rightarrow> bool" where
  "opensNext s = (case dropWhile isWhiteSpace s of [] \<Rightarrow> False | c # cs \<Rightarrow> isOpener c)"

fun hasSplitPoint :: "string \<Rightarrow> bool" where
  "hasSplitPoint (t # w # s) =
     ((isTerminator t \<and> isWhiteSpace w \<and> opensNext s) \<or> hasSplitPoint (w # s))"
| "hasSplitPoint [t] = False"
| "hasSplitPoint [] = False"

text \<open>The text just before a position, as far as the separator looks back.\<close>

fun before :: "char option \<Rightarrow> string" where
  "before None = []"
| "before (Some c) = [c]"

text \<open>\<open>reaches x y\<close>: position \<open>y\<close> lies at or after position \<open>x\<close> in the same
  subject string, and remembers the right code unit before it.\<close>

definition reaches :: "pos \<Rightarrow> pos \<Rightarrow> bool" where
  "reaches x y =
     (\<exists>m. snd x = m @ snd y \<and> fst y = (if m = [] then fst x else Some (last m)))"

text \<open>The quadruple by which candidates are meant to be told apart.\<close>

definition quadruple :: "Candidate \<Rightarrow> int \<times> CandidateKind \<times> string \<times> string" where
  "quadruple c = (c_page c, c_kind c, c_match c, c_sentence c)"

text \<open>A sentence of 242 code units that cites one regulation.\<close>

definition longSentence :: string where
  "longSentence = ''In terms of Regulation 5 every recognised stock exchange and every clearing corporation shall ensure that the systems for trading, clearing and settlement, including the disaster recovery site, are audited by an independent auditor every year''"

section \<open>Scenarios, evaluated\<close>

text \<open>The detector and the run on concrete pages, computed from the definitions.\<close>

lemma scenario_candidates:
  "findCandidates
     [\<lparr>p_page = 1,
       p_text = ''Refer to SEBI/HO/MRD/DSA/CIR/2023/45 dated Jan 1, 2023 and Regulation 9(1).'',
       p_urls = []\<rparr>]
   = [\<lparr>c_page = 1,
        c_sentence = ''Refer to SEBI/HO/MRD/DSA/CIR/2023/45 dated Jan 1, 2023 and Regulation 9(1).'',
        c_match = ''Regulation 9(1)'', c_kind = K_regulation, c_url = None\<rparr>]"
  by code_simp

lemma scenario_run:
  "main True llm b
     [\<lparr>p_page = 1,
       p_text = ''Refer to SEBI/HO/MRD/DSA/CIR/2023/45 dated Jan 1, 2023 and Regulation 9(1).'',
       p_urls = []\<rparr>]
   = Inr [\<lparr>r_type = Regulation, r_title = None, r_identifier = Some ''Regulation 9(1)'',
           r_url = None, r_anchorPageHint = None, r_pages = [1],
           r_snippets =
             [''Refer to SEBI/HO/MRD/DSA/CIR/2023/45 dated Jan 1, 2023 and Regulation 9(1).''],
           r_confidence = 4 / 10\<rparr>]"
  unfolding main_def scenario_candidates by code_simp

lemma circular_code_matches:
  "str_match (PATTERNS K_circularCode) ''SEBI/HO/MRD/DSA/CIR/2023/45'' = []"
  "str_match (PATTERNS K_circularCode) ''SEBI/HO/MRD/DSA/P/CIR/2023/45''
     = [''SEBI/HO/MRD/DSA/P/CIR/2023/45'']"
  "str_match (PATTERNS K_circularCode) ''SEBI/HO/MRD/DSA//CIR/2023/45''
     = [''SEBI/HO/MRD/DSA//CIR/2023/45'']"
  by code_simp+

lemma regulation_pair_candidates:
  "findCandidates
     [\<lparr>p_page = 1, p_text = ''See Regulation 12(3) and 12(3A) of the Regulations.'',
       p_urls = []\<rparr>]
   = [\<lparr>c_page = 1, c_sentence = ''See Regulation 12(3) and 12(3A) of the Regulations.'',
        c_match = ''Regulation 12(3)'', c_kind = K_regulation, c_url = None\<rparr>]"
  by code_simp

lemma quiet_page_candidates:
  "findCandidates
     [\<lparr>p_page = 3, p_text = ''Nothing is cited on this page.  It has two sentences.'',
       p_urls = []\<rparr>] = []"
  by code_simp

lemma repeated_sentence_results:
  "concat (map pageCandidates
     [\<lparr>p_page = 4, p_text = ''See Regulation 5. See Regulation 5.'', p_urls = []\<rparr>])
   = [\<lparr>c_page = 4, c_sentence = ''See Regulation 5.'', c_match = ''Regulation 5'',
        c_kind = K_regulation, c_url = None\<rparr>,
      \<lparr>c_page = 4, c_sentence = ''See Regulation 5.'', c_match = ''Regulation 5'',
        c_kind = K_regulation, c_url = None\<rparr>]"
  by code_simp

lemma two_urls_matches:
  "str_match (PATTERNS K_url)
     ''See https://a.example/x and https://b.example/y#page=7 for details''
   = [''https://a.example/x'', ''https://b.example/y#page=7'']"
  by code_simp

lemma two_urls_trim:
  "trim ''See https://a.example/x and https://b.example/y#page=7 for details''
     = ''See https://a.example/x and https://b.example/y#page=7 for details''"
  "trim ''https://a.example/x'' = ''https://a.example/x''"
  "trim ''https://b.example/y#page=7'' = ''https://b.example/y#page=7''"
  by code_simp+

lemma long_sentence_candidates:
  "findCandidates [\<lparr>p_page = 1, p_text = longSentence, p_urls = []\<rparr>]
   = [\<lparr>c_page = 1, c_sentence = longSentence, c_match = ''Regulation 5'',
        c_kind = K_regulation, c_url = None\<rparr>]"
  by code_simp

lemma long_sentence_length: "length longSentence = 242"
  by code_simp

lemma collision_results:
  "concat (map pageCandidates
     [\<lparr>p_page = 1,
       p_text = ''See https://x.in/a|B https://x.in/a now. B|See https://x.in/a|B https://x.in/a now.'',
       p_urls = []\<rparr>])
   = [\<lparr>c_page = 1, c_sentence = ''See https://x.in/a|B https://x.in/a now.'',
        c_match = ''https://x.in/a|B'', c_kind = K_url, c_url = Some ''https://x.in/a|B''\<rparr>,
      \<lparr>c_page = 1, c_sentence = ''See https://x.in/a|B https://x.in/a now.'',
        c_match = ''https://x.in/a'', c_kind = K_url, c_url = Some ''https://x.in/a|B''\<rparr>,
      \<lparr>c_page = 1, c_sentence = ''B|See https://x.in/a|B https://x.in/a now.'',
        c_match = ''https://x.in/a|B'', c_kind = K_url, c_url = Some ''https://x.in/a|B''\<rparr>,
      \<lparr>c_page = 1, c_sentence = ''B|See https://x.in/a|B https://x.in/a now.'',
        c_match = ''https://x.in/a'', c_kind = K_url, c_url = Some ''https://x.in/a|B''\<rparr>]"
  by code_simp

lemma collision_candidates:
  "findCandidates
     [\<lparr>p_page = 1,
       p_text = ''See https://x.in/a|B https://x.in/a now. B|See https://x.in/a|B https://x.in/a now.'',
       p_urls = []\<rparr>]
   = [\<lparr>c_page = 1, c_sentence = ''See https://x.in/a|B https://x.in/a now.'',
        c_match = ''https://x.in/a|B'', c_kind = K_url, c_url = Some ''https://x.in/a|B''\<rparr>,
      \<lparr>c_page = 1, c_sentence = ''See https://x.in/a|B https://x.in/a now.'',
        c_match = ''https://x.in/a'', c_kind = K_url, c_url = Some ''https://x.in/a|B''\<rparr>,
      \<lparr>c_page = 1, c_sentence = ''B|See https://x.in/a|B https://x.in/a now.'',
        c_match = ''https://x.in/a|B'', c_kind = K_url, c_url = Some ''https://x.in/a|B''\<rparr>]"
  unfolding findCandidates_def collision_results by code_simp

lemma three_records_merged:
  "dedupe
     [\<lparr>r_type = Regulation, r_title = None, r_identifier = Some ''Regulation 9(1)'',
       r_url = None, r_anchorPageHint = None, r_pages = [3, 1], r_snippets = [''s1''],
       r_confidence = 3 / 10\<rparr>,
      \<lparr>r_type = Regulation, r_title = None, r_identifier = Some ''REGULATION 9(1)'',
       r_url = None, r_anchorPageHint = None, r_pages = [2, 3], r_snippets = [''s2'', ''s1''],
       r_confidence = 9 / 10\<rparr>,
      \<lparr>r_type = Regulation, r_title = None, r_identifier = Some ''regulation 9(1)'',
       r_url = None, r_anchorPageHint = None, r_pages = [5], r_snippets = [''s3''],
       r_confidence = 7 / 10\<rparr>]
   = [\<lparr>r_type = Regulation, r_title = None, r_identifier = Some ''Regulation 9(1)'',
        r_url = None, r_anchorPageHint = None, r_pages = [1, 2, 3, 5],
        r_snippets = [''s1'', ''s2'', ''s3''], r_confidence = 9 / 10\<rparr>]"
  by code_simp

section \<open>The matcher only moves forward\<close>

text \<open>Every position a matcher returns lies at or after the position it started from,
  so the test of \<open>rep\<close> for an iteration that consumed something is the test of the
  standard that the end index has changed.\<close>

lemma reaches_refl: "reaches x x"
  by (simp add: reaches_def)

lemma reaches_trans: "reaches x y \<Longrightarrow> reaches y z \<Longrightarrow> reaches x z"
proof -
  assume "reaches x y" "reaches y z"
  then obtain m1 m2 where
    1: "snd x = m1 @ snd y" "fst y = (if m1 = [] then fst x else Some (last m1))"
    and 2: "snd y = m2 @ snd z" "fst z = (if m2 = [] then fst y else Some (last m2))"
    by (auto simp: reaches_def)
  then have "snd x = (m1 @ m2) @ snd z
     \<and> fst z = (if m1 @ m2 = [] then fst x else Some (last (m1 @ m2)))"
    by simp
  then show ?thesis unfolding reaches_def by blast
qed

lemma reaches_step_if: "y \<in> set (step_if ok x) \<Longrightarrow> reaches x y"
proof -
  assume a: "y \<in> set (step_if ok x)"
  then obtain c cs where "snd x = c # cs" "y = (Some c, cs)"
    by (cases "snd x") (auto simp: step_if_def split: if_splits)
  then have "snd x = [c] @ snd y \<and> fst y = (if [c] = [] then fst x else Some (last [c]))"
    by simp
  then show ?thesis unfolding reaches_def by blast
qed

lemma reaches_length: "reaches x y \<Longrightarrow> length (snd y) \<le> length (snd x)"
  by (auto simp: reaches_def)

lemma rep_reaches:
  "(\<forall>x y. y \<in> set (step x) \<longrightarrow> reaches x y) \<Longrightarrow>
   y \<in> set (rep step greedy mn mx x) \<Longrightarrow> reaches x y"
proof (induction step greedy mn mx x arbitrary: y rule: rep.induct)
  case (1 step greedy mn mx x)
  show ?case
  proof (cases "mx = Some 0")
    case True
    with "1.prems"(2) show ?thesis by (subst (asm) rep.simps) (simp add: reaches_refl)
  next
    case mx: False
    show ?thesis
    proof (cases "0 < mn")
      case True
      from "1.prems"(2) mx True obtain z where
        z: "z \<in> set (step x)" "y \<in> set (rep step greedy (mn - 1) (dec_max mx) z)"
        by (subst (asm) rep.simps) auto
      from "1.IH"(1) [OF mx True z(1) "1.prems"(1) z(2)] have "reaches z y" .
      moreover from "1.prems"(1) z(1) have "reaches x z" by blast
      ultimately show ?thesis by (blast intro: reaches_trans)
    next
      case False
      from "1.prems"(2) mx False have
        "y = x \<or> (\<exists>z. z \<in> set (filter (\<lambda>y. length (snd y) < length (snd x)) (step x))
                    \<and> y \<in> set (rep step greedy 0 (dec_max mx) z))"
        by (subst (asm) rep.simps) (auto simp: Let_def split: if_splits)
      then show ?thesis
      proof
        assume "y = x" then show ?thesis by (simp add: reaches_refl)
      next
        assume "\<exists>z. z \<in> set (filter (\<lambda>y. length (snd y) < length (snd x)) (step x))
                    \<and> y \<in> set (rep step greedy 0 (dec_max mx) z)"
        then obtain z where
          z: "z \<in> set (filter (\<lambda>y. length (snd y) < length (snd x)) (step x))"
             "y \<in> set (rep step greedy 0 (dec_max mx) z)" by blast
        from "1.IH"(2) [OF mx False z(1) "1.prems"(1) z(2)] have "reaches z y" .
        moreover from z(1) have "z \<in> set (step x)" by simp
        with "1.prems"(1) have "reaches x z" by blast
        ultimately show ?thesis by (blast intro: reaches_trans)
      qed
    qed
  qed
qed

lemma matcher_reaches: "y \<in> set (matcher r ic x) \<Longrightarrow> reaches x y"
proof (induction r arbitrary: x y)
  case (Seq a b)
  then obtain z where "z \<in> set (matcher a ic x)" "y \<in> set (matcher b ic z)" by auto
  with Seq.IH show ?case by (blast intro: reaches_trans)
next
  case (Rep mn mx greedy a)
  then have "\<forall>x y. y \<in> set (matcher a ic x) \<longrightarrow> reaches x y" by blast
  moreover from Rep.prems have "y \<in> set (rep (matcher a ic) greedy mn mx x)" by simp
  ultimately show ?case by (rule rep_reaches)
qed (auto simp: reaches_refl reaches_step_if split: if_splits option.splits)

lemma matcher_consumes:
  assumes "y \<in> set (matcher r ic x)"
  shows "(length (snd y) < length (snd x)) = (y \<noteq> x)"
proof -
  from assms have "reaches x y" by (rule matcher_reaches)
  then obtain m where m: "snd x = m @ snd y" "fst y = (if m = [] then fst x else Some (last m))"
    by (auto simp: reaches_def)
  show ?thesis
  proof (cases "m = []")
    case True
    with m have "y = x" by (simp add: prod_eq_iff)
    with True m show ?thesis by simp
  next
    case False
    with m have "length (snd y) < length (snd x)" by simp
    then show ?thesis by auto
  qed
qed

lemma rep_last_step:
  "(\<forall>x y. y \<in> set (step x) \<longrightarrow> Q y) \<Longrightarrow>
   y \<in> set (rep step greedy mn mx x) \<Longrightarrow> y = x \<or> Q y"
proof (induction step greedy mn mx x arbitrary: y rule: rep.induct)
  case (1 step greedy mn mx x)
  show ?case
  proof (cases "mx = Some 0")
    case True
    with "1.prems"(2) show ?thesis by (subst (asm) rep.simps) simp
  next
    case mx: False
    show ?thesis
    proof (cases "0 < mn")
      case True
      from "1.prems"(2) mx True obtain z where
        z: "z \<in> set (step x)" "y \<in> set (rep step greedy (mn - 1) (dec_max mx) z)"
        by (subst (asm) rep.simps) auto
      from "1.IH"(1) [OF mx True z(1) "1.prems"(1) z(2)] have "y = z \<or> Q y" .
      moreover from "1.prems"(1) z(1) have "Q z" by blast
      ultimately show ?thesis by blast
    next
      case False
      from "1.prems"(2) mx False have
        "y = x \<or> (\<exists>z. z \<in> set (filter (\<lambda>y. length (snd y) < length (snd x)) (step x))
                    \<and> y \<in> set (rep step greedy 0 (dec_max mx) z))"
        by (subst (asm) rep.simps) (auto simp: Let_def split: if_splits)
      then show ?thesis
      proof
        assume "y = x" then show ?thesis by simp
      next
        assume "\<exists>z. z \<in> set (filter (\<lambda>y. length (snd y) < length (snd x)) (step x))
                    \<and> y \<in> set (rep step greedy 0 (dec_max mx) z)"
        then obtain z where
          z: "z \<in> set (filter (\<lambda>y. length (snd y) < length (snd x)) (step x))"
             "y \<in> set (rep step greedy 0 (dec_max mx) z)" by blast
        from "1.IH"(2) [OF mx False z(1) "1.prems"(1) z(2)] have "y = z \<or> Q y" .
        moreover from z(1) have "z \<in> set (step x)" by simp
        with "1.prems"(1) have "Q z" by blast
        ultimately show ?thesis by blast
      qed
    qed
  qed
qed

lemma rep_once_last_step:
  assumes "\<forall>x y. y \<in> set (step x) \<longrightarrow> Q y"
    and "y \<in> set (rep step greedy 1 None x)"
  shows "Q y"
proof -
  from assms(2) obtain z where z: "z \<in> set (step x)" "y \<in> set (rep step greedy 0 None z)"
    by (subst (asm) rep.simps) (auto simp: dec_max_def)
  from rep_last_step [OF assms(1) z(2)] have "y = z \<or> Q y" .
  with assms(1) z(1) show ?thesis by blast
qed

lemma seqD:
  "e \<in> set (matcher (Seq a b) ic x) \<Longrightarrow>
   \<exists>y. y \<in> set (matcher a ic x) \<and> e \<in> set (matcher b ic y)"
  by auto

lemma wordbD: "y \<in> set (matcher WordB ic x) \<Longrightarrow> y = x"
  by (cases "is_word_at (fst x) = is_word_at (next_char x)") simp_all

lemma epsD: "y \<in> set (matcher Epsilon ic x) \<Longrightarrow> y = x"
  by simp

lemma matchFrom_elements:
  "m \<in> set (matchFrom r ic x) \<Longrightarrow>
   m = [] \<or> (\<exists>x' e. e \<in> set (matcher r ic x')
               \<and> m = take (length (snd x') - length (snd e)) (snd x'))"
proof (induction r ic x rule: matchFrom.induct)
  case (1 r ic x)
  show ?case
  proof (cases "matcher r ic x")
    case Nil
    show ?thesis
    proof (cases "snd x")
      case Nil': Nil
      with Nil "1.prems" show ?thesis by (subst (asm) matchFrom.simps) simp
    next
      case (Cons c cs)
      with Nil "1.prems" have "m \<in> set (matchFrom r ic (Some c, cs))"
        by (subst (asm) matchFrom.simps) simp
      from "1.IH"(1) [OF Nil Cons this] show ?thesis .
    qed
  next
    case (Cons e es)
    show ?thesis
    proof (cases "length (snd e) < length (snd x)")
      case True
      with Cons "1.prems" have
        "m = take (length (snd x) - length (snd e)) (snd x) \<or> m \<in> set (matchFrom r ic e)"
        by (subst (asm) matchFrom.simps) auto
      then show ?thesis
      proof
        assume "m = take (length (snd x) - length (snd e)) (snd x)"
        moreover from Cons have "e \<in> set (matcher r ic x)" by simp
        ultimately show ?thesis by blast
      next
        assume "m \<in> set (matchFrom r ic e)"
        from "1.IH"(2) [OF Cons True this] show ?thesis .
      qed
    next
      case False
      show ?thesis
      proof (cases "snd x")
        case Nil
        with Cons False "1.prems" show ?thesis by (subst (asm) matchFrom.simps) simp
      next
        case c: (Cons c cs)
        with Cons False "1.prems" have "m = [] \<or> m \<in> set (matchFrom r ic (Some c, cs))"
          by (subst (asm) matchFrom.simps) auto
        then show ?thesis
        proof
          assume "m = []" then show ?thesis by simp
        next
          assume "m \<in> set (matchFrom r ic (Some c, cs))"
          from "1.IH"(3) [OF Cons False c this] show ?thesis .
        qed
      qed
    qed
  qed
qed

section \<open>What a URL match looks like\<close>

lemma space_case_fixed: "isWhiteSpace c \<Longrightarrow> upperChar c = c \<and> lowerChar c = c"
  by (auto simp: isWhiteSpace_def upperChar_def lowerChar_def between_def less_eq_char_def)

lemma nonspace_class: "class_found ic [CNonSpace] c = (\<not> isWhiteSpace c)"
  using space_case_fixed [of c] by (auto simp: class_found_def class_has_def)

lemma nonspace_step:
  "y \<in> set (matcher (Cls False [CNonSpace]) ic x) \<Longrightarrow> \<exists>d. fst y = Some d \<and> \<not> isWhiteSpace d"
  by (cases "snd x") (auto simp: step_if_def next_char_def nonspace_class split: if_splits)

lemma h_not_space: "lit_eq True CHR ''h'' c \<Longrightarrow> \<not> isWhiteSpace c"
proof
  assume a: "lit_eq True CHR ''h'' c" and w: "isWhiteSpace c"
  have "upperChar CHR ''h'' = CHR ''H''" by code_simp
  with a have "upperChar c = CHR ''H''" by (simp add: lit_eq_def)
  with space_case_fixed [OF w] have "c = CHR ''H''" by simp
  moreover have "\<not> isWhiteSpace CHR ''H''" by code_simp
  ultimately show False using w by simp
qed

lemma url_shape:
  "PATTERNS K_url =
     (Seq WordB (Seq (Seq (Lit CHR ''h'') (Seq (Lit CHR ''t'') (Seq (Lit CHR ''t'')
        (Seq (Lit CHR ''p'') Epsilon))))
      (Seq (ropt (Lit CHR ''s'')) (Seq (lits ''://'')
        (Seq (Rep 1 None True (Cls False [CNonSpace])) Epsilon)))), True)"
  by (simp add: seqs_def lits_def rplus_def)

lemma url_match_ends:
  assumes "e \<in> set (matcher (fst (PATTERNS K_url)) (snd (PATTERNS K_url)) x)"
  shows "\<exists>m. snd x = m @ snd e \<and> m \<noteq> [] \<and> \<not> isWhiteSpace (hd m) \<and> \<not> isWhiteSpace (last m)"
proof -
  note a = assms [unfolded url_shape fst_conv snd_conv]
  from seqD [OF a] obtain x1 where x1: "x1 \<in> set (matcher WordB True x)"
    and r1: "e \<in> set (matcher (Seq (Seq (Lit CHR ''h'') (Seq (Lit CHR ''t'') (Seq (Lit CHR ''t'')
        (Seq (Lit CHR ''p'') Epsilon))))
      (Seq (ropt (Lit CHR ''s'')) (Seq (lits ''://'')
        (Seq (Rep 1 None True (Cls False [CNonSpace])) Epsilon)))) True x1)" by blast
  from x1 have "x1 = x" by (rule wordbD)
  with seqD [OF r1] obtain x2 where
    x2: "x2 \<in> set (matcher (Seq (Lit CHR ''h'') (Seq (Lit CHR ''t'') (Seq (Lit CHR ''t'')
        (Seq (Lit CHR ''p'') Epsilon)))) True x)"
    and r2: "e \<in> set (matcher (Seq (ropt (Lit CHR ''s'')) (Seq (lits ''://'')
        (Seq (Rep 1 None True (Cls False [CNonSpace])) Epsilon))) True x2)" by blast
  from seqD [OF x2] obtain y where y: "y \<in> set (matcher (Lit CHR ''h'') True x)"
    and t: "x2 \<in> set (matcher (Seq (Lit CHR ''t'') (Seq (Lit CHR ''t'')
        (Seq (Lit CHR ''p'') Epsilon))) True y)" by blast
  from y obtain c cs where c: "snd x = c # cs" "lit_eq True CHR ''h'' c" "y = (Some c, cs)"
    by (cases "snd x") (auto simp: step_if_def next_char_def split: if_splits)
  from t have "reaches y x2" by (rule matcher_reaches)
  moreover from r2 have "reaches x2 e" by (rule matcher_reaches)
  ultimately have "reaches y e" by (rule reaches_trans)
  then obtain m where m: "cs = m @ snd e" "fst e = (if m = [] then Some c else Some (last m))"
    using c(3) by (auto simp: reaches_def)
  from seqD [OF r2] obtain x3 where
    r3: "e \<in> set (matcher (Seq (lits ''://'')
        (Seq (Rep 1 None True (Cls False [CNonSpace])) Epsilon)) True x3)" by blast
  from seqD [OF r3] obtain x4 where
    r4: "e \<in> set (matcher (Seq (Rep 1 None True (Cls False [CNonSpace])) Epsilon) True x4)" by blast
  from seqD [OF r4] obtain x5 where
    x5: "x5 \<in> set (matcher (Rep 1 None True (Cls False [CNonSpace])) True x4)"
    and r5: "e \<in> set (matcher Epsilon True x5)" by blast
  from r5 have "e = x5" by (rule epsD)
  with x5 have "e \<in> set (rep (matcher (Cls False [CNonSpace]) True) True 1 None x4)" by simp
  moreover have "\<forall>x y. y \<in> set (matcher (Cls False [CNonSpace]) True x)
      \<longrightarrow> (\<exists>d. fst y = Some d \<and> \<not> isWhiteSpace d)"
    using nonspace_step by blast
  ultimately have "\<exists>d. fst e = Some d \<and> \<not> isWhiteSpace d"
    by (rule rep_once_last_step [rotated])
  then obtain d where d: "fst e = Some d" "\<not> isWhiteSpace d" by blast
  from c(2) have nc: "\<not> isWhiteSpace c" by (rule h_not_space)
  have "last (c # m) = d" using m(2) d(1) by (auto split: if_splits)
  with c(1) m(1) d(2) nc have "snd x = (c # m) @ snd e \<and> c # m \<noteq> []
     \<and> \<not> isWhiteSpace (hd (c # m)) \<and> \<not> isWhiteSpace (last (c # m))"
    by simp
  then show ?thesis by blast
qed

lemma trim_id: "m \<noteq> [] \<Longrightarrow> \<not> isWhiteSpace (hd m) \<Longrightarrow> \<not> isWhiteSpace (last m) \<Longrightarrow> trim m = m"
proof -
  assume a: "m \<noteq> []" "\<not> isWhiteSpace (hd m)" "\<not> isWhiteSpace (last m)"
  from a(1,2) have 1: "dropWhile isWhiteSpace m = m" by (cases m) auto
  from a(1,3) have "dropWhile isWhiteSpace (rev m) = rev m"
    by (cases "rev m") (auto simp: last_rev [symmetric] hd_rev)
  with 1 show ?thesis by (simp add: trim_def trimStart_def)
qed

lemma trim_Nil: "trim [] = []"
  by (simp add: trim_def trimStart_def)

lemma url_match_trimmed:
  assumes "m \<in> set (str_match (PATTERNS K_url) s)"
  shows "trim m = m"
proof -
  from assms have "m \<in> set (matchFrom (fst (PATTERNS K_url)) (snd (PATTERNS K_url)) (None, s))"
    by (simp add: str_match_def)
  from matchFrom_elements [OF this] show ?thesis
  proof
    assume "m = []" then show ?thesis by (simp add: trim_Nil)
  next
    assume "\<exists>x' e. e \<in> set (matcher (fst (PATTERNS K_url)) (snd (PATTERNS K_url)) x')
               \<and> m = take (length (snd x') - length (snd e)) (snd x')"
    then obtain x' e where e: "e \<in> set (matcher (fst (PATTERNS K_url)) (snd (PATTERNS K_url)) x')"
      and m: "m = take (length (snd x') - length (snd e)) (snd x')" by blast
    from url_match_ends [OF e] obtain t where
      t: "snd x' = t @ snd e" "t \<noteq> []" "\<not> isWhiteSpace (hd t)" "\<not> isWhiteSpace (last t)"
      by blast
    from m t(1) have "m = t" by simp
    with t show ?thesis by (simp add: trim_id)
  qed
qed

section \<open>Sets as arrays, maps as association lists\<close>

lemma set_fold_setAdd: "set (fold setAdd xs acc) = set acc \<union> set xs"
  by (induction xs arbitrary: acc) (auto simp: setAdd_def)

lemma distinct_fold_setAdd: "distinct acc \<Longrightarrow> distinct (fold setAdd xs acc)"
  by (induction xs arbitrary: acc) (auto simp: setAdd_def)

lemma set_arrayFromSet: "set (arrayFromSet xs) = set xs"
  by (simp add: arrayFromSet_def set_fold_setAdd)

lemma distinct_arrayFromSet: "distinct (arrayFromSet xs)"
  by (simp add: arrayFromSet_def distinct_fold_setAdd)

lemma sort_arrayFromSet: "sort (arrayFromSet xs) = sorted_list_of_set (set xs)"
proof -
  have "sorted_list_of_set (set (arrayFromSet xs)) = sort (remdups (arrayFromSet xs))"
    by (rule sorted_list_of_set_sort_remdups)
  then show ?thesis
    by (simp add: set_arrayFromSet distinct_arrayFromSet distinct_remdups_id)
qed

lemma update_fresh: "map_of al k = None \<Longrightarrow> AList.update k v al = al @ [(k, v)]"
  by (induction al) (auto split: if_splits)

lemma set_update_subset: "set (AList.update k v al) \<subseteq> insert (k, v) (set al)"
  by (induction al) auto

lemma only_element:
  "distinct xs \<Longrightarrow> set xs \<subseteq> {c} \<Longrightarrow> xs \<noteq> [] \<Longrightarrow> xs = [c]"
  by (cases xs) (auto simp: subset_singleton_iff)

section \<open>The merge step\<close>

lemma mergeInto_frame:
  "r_type (mergeInto found r) = r_type found"
  "r_title (mergeInto found r) = r_title found"
  "r_identifier (mergeInto found r) = r_identifier found"
  by (simp_all add: mergeInto_def)

lemma firstSeen_frame:
  "r_type (firstSeen r) = r_type r"
  "r_title (firstSeen r) = r_title r"
  "r_identifier (firstSeen r) = r_identifier r"
  "r_url (firstSeen r) = r_url r"
  "r_anchorPageHint (firstSeen r) = r_anchorPageHint r"
  "r_confidence (firstSeen r) = r_confidence r"
  by (simp_all add: firstSeen_def)

lemma key_mergeInto: "key (mergeInto found r) = key found"
  by (simp add: key_def mergeInto_frame)

lemma key_type_differs: "r_type r1 = Circular \<Longrightarrow> r_type r2 = Other \<Longrightarrow> key r1 \<noteq> key r2"
  by (simp add: key_def)

lemma map_of_dedupeStep_found:
  "map_of m (key r) = Some found \<Longrightarrow> map_of (dedupeStep r m) (key r) = Some (mergeInto found r)"
  by (simp add: dedupeStep_def update_conv')

lemma fold_dedupeStep_same_key:
  "\<forall>r \<in> set rs. key r = k \<Longrightarrow> fold dedupeStep rs [(k, f)] = [(k, foldl mergeInto f rs)]"
  by (induction rs arbitrary: f) (simp_all add: dedupeStep_def)

lemma dedupe_same_key:
  assumes "\<forall>r \<in> set (r # rs). key r = k"
  shows "dedupe (r # rs) = [foldl mergeInto (firstSeen r) rs]"
  using assms by (simp add: dedupe_def dedupeStep_def fold_dedupeStep_same_key)

lemma pages_foldl_mergeInto:
  "r_pages f = sorted_list_of_set (set (r_pages f)) \<Longrightarrow>
   r_pages (foldl mergeInto f rs) = sorted_list_of_set (set (r_pages f) \<union> (\<Union>r \<in> set rs. set (r_pages r)))"
proof (induction rs arbitrary: f)
  case Nil then show ?case by simp
next
  case (Cons a rs)
  have p: "r_pages (mergeInto f a) = sorted_list_of_set (set (r_pages f) \<union> set (r_pages a))"
    by (simp add: mergeInto_def sort_arrayFromSet)
  have "r_pages (mergeInto f a) = sorted_list_of_set (set (r_pages (mergeInto f a)))"
    by (simp add: p)
  from Cons.IH [OF this] show ?case by (simp add: p Un_assoc)
qed

lemma snippets_foldl_mergeInto:
  "set (r_snippets (foldl mergeInto f rs)) = set (r_snippets f) \<union> (\<Union>r \<in> set rs. set (r_snippets r))"
  by (induction rs arbitrary: f) (auto simp: mergeInto_def set_arrayFromSet)

lemma distinct_snippets_foldl_mergeInto:
  "distinct (r_snippets f) \<Longrightarrow> distinct (r_snippets (foldl mergeInto f rs))"
  by (induction rs arbitrary: f) (auto simp: mergeInto_def distinct_arrayFromSet)

lemma Max_insert_max:
  fixes a b :: real
  assumes "finite A"
  shows "Max (insert (max a b) A) = max b (Max (insert a A))"
proof (cases "A = {}")
  case True then show ?thesis by (simp add: max.commute)
next
  case False
  with assms show ?thesis by (simp add: max.assoc max.commute max.left_commute)
qed

lemma confidence_foldl_mergeInto:
  "r_confidence (foldl mergeInto f rs) = Max (insert (r_confidence f) (r_confidence ` set rs))"
proof (induction rs arbitrary: f)
  case Nil then show ?case by simp
next
  case (Cons a rs)
  have "r_confidence (mergeInto f a) = max (r_confidence f) (r_confidence a)"
    by (simp add: mergeInto_def)
  then show ?case using Cons.IH [of "mergeInto f a"]
    by (simp add: Max_insert_max insert_commute)
qed

lemma dedupe_same_key_result:
  assumes ne: "items \<noteq> []" and k: "\<forall>r \<in> set items. key r = k"
  shows "\<exists>m. dedupe items = [m]
     \<and> r_pages m = sorted_list_of_set (\<Union>r \<in> set items. set (r_pages r))
     \<and> set (r_snippets m) = (\<Union>r \<in> set items. set (r_snippets r))
     \<and> distinct (r_snippets m)
     \<and> r_confidence m = Max (r_confidence ` set items)"
proof -
  from ne obtain r rs where items: "items = r # rs" by (cases items) auto
  let ?m = "foldl mergeInto (firstSeen r) rs"
  have d: "dedupe items = [?m]" using k unfolding items by (rule dedupe_same_key)
  have p0: "r_pages (firstSeen r) = sorted_list_of_set (set (r_pages r))"
    by (simp add: firstSeen_def sort_arrayFromSet)
  have "r_pages (firstSeen r) = sorted_list_of_set (set (r_pages (firstSeen r)))"
    by (simp add: p0)
  from pages_foldl_mergeInto [OF this, of rs]
  have p: "r_pages ?m = sorted_list_of_set (\<Union>r \<in> set items. set (r_pages r))"
    by (simp add: p0 items)
  have s: "set (r_snippets ?m) = (\<Union>r \<in> set items. set (r_snippets r))"
    by (simp add: snippets_foldl_mergeInto items firstSeen_def set_arrayFromSet)
  have ds: "distinct (r_snippets ?m)"
    by (rule distinct_snippets_foldl_mergeInto) (simp add: firstSeen_def distinct_arrayFromSet)
  have c: "r_confidence ?m = Max (r_confidence ` set items)"
    by (simp add: confidence_foldl_mergeInto items firstSeen_frame)
  from d p s ds c show ?thesis by blast
qed

lemma update_snippets_union:
  "map_of al k = Some found \<Longrightarrow> set (r_snippets found) \<subseteq> set (r_snippets v) \<Longrightarrow>
   (\<Union>x \<in> set (AList.update k v al). set (r_snippets (snd x)))
     = (\<Union>x \<in> set al. set (r_snippets (snd x))) \<union> set (r_snippets v)"
  by (induction al) (auto split: if_splits)

lemma dedupeStep_snippets_union:
  "(\<Union>x \<in> set (dedupeStep r al). set (r_snippets (snd x)))
     = (\<Union>x \<in> set al. set (r_snippets (snd x))) \<union> set (r_snippets r)"
proof (cases "map_of al (key r)")
  case None
  then show ?thesis
    by (simp add: dedupeStep_def update_fresh firstSeen_def set_arrayFromSet Un_commute)
next
  case (Some found)
  have m: "set (r_snippets (mergeInto found r)) = set (r_snippets found) \<union> set (r_snippets r)"
    by (simp add: mergeInto_def set_arrayFromSet)
  from Some have "(key r, found) \<in> set al" by (rule map_of_SomeD)
  then have f: "set (r_snippets found) \<subseteq> (\<Union>x \<in> set al. set (r_snippets (snd x)))"
    by force
  have "(\<Union>x \<in> set (dedupeStep r al). set (r_snippets (snd x)))
      = (\<Union>x \<in> set al. set (r_snippets (snd x))) \<union> set (r_snippets (mergeInto found r))"
    using Some by (simp add: dedupeStep_def update_snippets_union m)
  with f show ?thesis unfolding m by blast
qed

lemma fold_dedupeStep_snippets_union:
  "(\<Union>x \<in> set (fold dedupeStep items al). set (r_snippets (snd x)))
     = (\<Union>x \<in> set al. set (r_snippets (snd x))) \<union> (\<Union>r \<in> set items. set (r_snippets r))"
proof (induction items arbitrary: al)
  case Nil then show ?case by simp
next
  case (Cons r items)
  show ?case
    unfolding fold_simps list.set Cons.IH dedupeStep_snippets_union by auto
qed

lemma dedupe_snippets_union:
  "(\<Union>r \<in> set (dedupe items). set (r_snippets r)) = (\<Union>r \<in> set items. set (r_snippets r))"
  using fold_dedupeStep_snippets_union [of items "[]"] by (simp add: dedupe_def)

lemma rulesOnly_snippets_union:
  "(\<Union>r \<in> set (map rulesOnly cs). set (r_snippets r)) = sentenceOrMatch ` set cs"
  by (auto simp: rulesOnly_def)

section \<open>The candidate map\<close>

lemma uniqStep_cases:
  "uniqStep c al = (if map_of al (candidateKey c) = None then al @ [(candidateKey c, c)] else al)"
  by (simp add: uniqStep_def Let_def update_fresh)

lemma fold_uniqStep_keys:
  "map fst al = map (candidateKey \<circ> snd) al \<Longrightarrow>
   map fst (fold uniqStep cs al) = map (candidateKey \<circ> snd) (fold uniqStep cs al)"
proof (induction cs arbitrary: al)
  case Nil then show ?case by simp
next
  case (Cons c cs)
  have "map fst (uniqStep c al) = map (candidateKey \<circ> snd) (uniqStep c al)"
    using Cons.prems by (simp add: uniqStep_cases)
  from Cons.IH [OF this] show ?case by simp
qed

lemma fold_uniqStep_distinct:
  "distinct (map fst al) \<Longrightarrow> distinct (map fst (fold uniqStep cs al))"
proof (induction cs arbitrary: al)
  case Nil then show ?case by simp
next
  case (Cons c cs)
  have "distinct (map fst (uniqStep c al))"
    using Cons.prems by (auto simp: uniqStep_cases map_of_eq_None_iff)
  then show ?case using Cons.IH by simp
qed

lemma fold_uniqStep_subset:
  "snd ` set (fold uniqStep cs al) \<subseteq> snd ` set al \<union> set cs"
proof (induction cs arbitrary: al)
  case Nil then show ?case by simp
next
  case (Cons c cs)
  have "snd ` set (uniqStep c al) \<subseteq> snd ` set al \<union> {c}"
    by (auto simp: uniqStep_cases)
  with Cons.IH [of "uniqStep c al"] show ?case by auto
qed

lemma fold_uniqStep_key_image:
  "fst ` set (fold uniqStep cs al) = fst ` set al \<union> candidateKey ` set cs"
proof (induction cs arbitrary: al)
  case Nil then show ?case by simp
next
  case (Cons c cs)
  have "fst ` set (uniqStep c al) = fst ` set al \<union> {candidateKey c}"
    by (auto simp: uniqStep_cases map_of_eq_None_iff)
  with Cons.IH [of "uniqStep c al"] show ?case by auto
qed

lemma key_of_quadruple:
  "quadruple a = quadruple b \<Longrightarrow> candidateKey a = candidateKey b"
  by (simp add: quadruple_def candidateKey_def)

lemma distinct_keys_quadruples:
  assumes "distinct (map candidateKey cs)"
  shows "distinct (map quadruple cs)"
proof -
  from assms have d: "distinct cs" and i: "inj_on candidateKey (set cs)"
    by (simp_all add: distinct_map)
  have "inj_on quadruple (set cs)"
  proof (rule inj_onI)
    fix a b assume "a \<in> set cs" "b \<in> set cs" "quadruple a = quadruple b"
    with i key_of_quadruple show "a = b" by (auto dest: inj_onD)
  qed
  with d show ?thesis by (simp add: distinct_map)
qed

lemma filter_kind_map:
  "filter (\<lambda>c. c_kind c = k) (map (\<lambda>m. \<lparr>c_page = pg, c_sentence = st, c_match = f m, c_kind = k', c_url = u\<rparr>) ms)
   = (if k' = k then map (\<lambda>m. \<lparr>c_page = pg, c_sentence = st, c_match = f m, c_kind = k', c_url = u\<rparr>) ms else [])"
  by (induction ms) auto

lemma url_candidates_of_sentence:
  "filter (\<lambda>c. c_kind c = K_url) (sentenceCandidates pg s)
   = map (\<lambda>m. \<lparr>c_page = pg, c_sentence = trim s, c_match = trim m, c_kind = K_url,
               c_url = firstUrl s\<rparr>) (str_match (PATTERNS K_url) s)"
  by (simp add: sentenceCandidates_def Let_def kinds_def filter_kind_map del: PATTERNS.simps)

section \<open>The sentence separator\<close>

lemma terminator_class:
  "class_found False [CChar CHR ''.'', CChar CHR ''?'', CChar CHR ''!'', CChar CHR '';''] c = isTerminator c"
  by (simp add: class_found_def class_has_def isTerminator_def)

lemma opener_class:
  "class_found False [upperAZ, CChar CHR ''('', CChar CHR 0x22, CChar CHR 0x27] c = isOpener c"
  by (simp add: class_found_def class_has_def isOpener_def upperAZ_def)

lemma space_class: "class_found False [CSpace] c = isWhiteSpace c"
  by (simp add: class_found_def class_has_def)

lemma opener_not_space: "isOpener c \<Longrightarrow> \<not> isWhiteSpace c"
  by (auto simp: isOpener_def isWhiteSpace_def between_def less_eq_char_def)

lemma matcher_space:
  "matcher space False (pv, cs) =
     (case cs of [] \<Rightarrow> [] | c # cs' \<Rightarrow> if isWhiteSpace c then [(Some c, cs')] else [])"
  by (simp add: space_def step_if_def next_char_def space_class split: list.splits)

lemma spaces_Nil: "rep (matcher space False) True 0 None (pv, []) = [(pv, [])]"
  by (subst rep.simps) (simp add: matcher_space)

lemma spaces_Cons:
  "rep (matcher space False) True 0 None (pv, c # cs) =
     (if isWhiteSpace c then rep (matcher space False) True 0 None (Some c, cs) @ [(pv, c # cs)]
      else [(pv, c # cs)])"
  by (subst rep.simps) (simp add: matcher_space dec_max_def)

lemma spaces_ends:
  "y \<in> set (rep (matcher space False) True 0 None (pv, cs)) \<Longrightarrow>
   \<exists>ws. cs = ws @ snd y \<and> (\<forall>w \<in> set ws. isWhiteSpace w)"
proof (induction cs arbitrary: pv)
  case Nil then show ?case by (simp add: spaces_Nil)
next
  case (Cons c cs)
  show ?case
  proof (cases "isWhiteSpace c \<and> y \<in> set (rep (matcher space False) True 0 None (Some c, cs))")
    case True
    with Cons.IH obtain ws where "cs = ws @ snd y" "\<forall>w \<in> set ws. isWhiteSpace w" by blast
    with True have "c # cs = (c # ws) @ snd y \<and> (\<forall>w \<in> set (c # ws). isWhiteSpace w)" by simp
    then show ?thesis by blast
  next
    case False
    with Cons.prems have "y = (pv, c # cs)" by (auto simp: spaces_Cons split: if_splits)
    then have "c # cs = [] @ snd y \<and> (\<forall>w \<in> set []. isWhiteSpace w)" by simp
    then show ?thesis by blast
  qed
qed

lemma ahead_opener:
  "matcher (Ahead (Cls False [upperAZ, CChar CHR ''('', CChar CHR 0x22, CChar CHR 0x27])) False y \<noteq> []
   \<Longrightarrow> \<exists>c cs. snd y = c # cs \<and> isOpener c"
  by (cases "snd y") (auto simp: step_if_def next_char_def opener_class split: if_splits)

lemma opensNext_after_spaces:
  assumes "\<forall>w \<in> set ws. isWhiteSpace w" and "isOpener c"
  shows "opensNext (ws @ c # cs)"
proof -
  from assms(2) have "\<not> isWhiteSpace c" by (rule opener_not_space)
  with assms(1) have "dropWhile isWhiteSpace (ws @ c # cs) = c # cs"
    by (simp add: dropWhile_append3)
  with assms(2) show ?thesis by (simp add: opensNext_def)
qed

lemma sentenceBreak_match:
  assumes "matcher (fst sentenceBreak) (snd sentenceBreak) (pv, cs) \<noteq> []"
  shows "\<exists>t w s. pv = Some t \<and> cs = w # s \<and> isTerminator t \<and> isWhiteSpace w \<and> opensNext s"
proof -
  let ?ahead = "Ahead (Cls False [upperAZ, CChar CHR ''('', CChar CHR 0x22, CChar CHR 0x27])"
  let ?spaces = "rep (matcher space False) True 0 None"
  from assms obtain t where t: "pv = Some t" "isTerminator t"
    by (cases pv) (auto simp: sentenceBreak_def seqs_def terminator_class split: if_splits)
  have one: "rep (matcher space False) True 1 None (pv, cs) =
             concat (map ?spaces (matcher space False (pv, cs)))"
    by (subst rep.simps) (simp add: dec_max_def)
  from assms t obtain y z where y: "y \<in> set (rep (matcher space False) True 1 None (pv, cs))"
     and z: "z \<in> set (matcher ?ahead False y)"
    by (auto simp: sentenceBreak_def seqs_def rplus_def terminator_class
             simp del: matcher.simps(8) split: if_splits)
  from z have a: "matcher ?ahead False y \<noteq> []" by auto
  from y obtain w s where ws: "cs = w # s" "isWhiteSpace w" "y \<in> set (?spaces (Some w, s))"
    unfolding one by (cases cs) (auto simp: matcher_space split: if_splits)
  from spaces_ends [OF ws(3)] obtain sp where sp: "s = sp @ snd y" "\<forall>w \<in> set sp. isWhiteSpace w"
    by blast
  from ahead_opener [OF a] obtain c rest where c: "snd y = c # rest" "isOpener c" by blast
  from sp c have "opensNext s" by (simp add: opensNext_after_spaces)
  with t ws show ?thesis by blast
qed

lemma splitFrom_no_split_point:
  "\<not> hasSplitPoint (before pv @ cs) \<Longrightarrow>
   splitFrom (fst sentenceBreak) (snd sentenceBreak) chunk (pv, cs) = [chunk @ cs]"
proof (induction cs arbitrary: pv chunk)
  case Nil
  show ?case by (subst splitFrom.simps) simp
next
  case (Cons c cs)
  have m: "matcher (fst sentenceBreak) (snd sentenceBreak) (pv, c # cs) = []"
  proof (rule ccontr)
    assume "matcher (fst sentenceBreak) (snd sentenceBreak) (pv, c # cs) \<noteq> []"
    from sentenceBreak_match [OF this] Cons.prems show False by auto
  qed
  have "\<not> hasSplitPoint (before (Some c) @ cs)"
    using Cons.prems by (cases pv) auto
  from Cons.IH [OF this, of "chunk @ [c]"] m show ?case
    by (subst splitFrom.simps) simp
qed

lemma str_split_no_split_point:
  assumes "\<not> hasSplitPoint s"
  shows "str_split sentenceBreak s = [s]"
proof (cases "s = []")
  case True
  have "matcher (fst sentenceBreak) (snd sentenceBreak) (None, []) = []"
    by (simp add: sentenceBreak_def seqs_def)
  with True show ?thesis by (simp add: str_split_def)
next
  case False
  from assms have "\<not> hasSplitPoint (before None @ s)" by simp
  from splitFrom_no_split_point [OF this, of "[]"] False show ?thesis
    by (simp add: str_split_def)
qed

section \<open>The end-to-end scenario\<close>

text \<open>C1. The rules-only run on the one-page document whose text is
  "Refer to SEBI/HO/MRD/DSA/CIR/2023/45 dated Jan 1, 2023 and Regulation 9(1)." is
  expected to give a Circular record and a Regulation record. The run gives the
  Regulation record only: the \<^verbatim>\<open>circularCode\<close> pattern asks for
  \<^verbatim>\<open>/\<close>, an optional \<^verbatim>\<open>P\<close> and another \<^verbatim>\<open>/\<close> in front of
  \<^verbatim>\<open>CIR/\<close>, which the code \<^verbatim>\<open>SEBI/HO/MRD/DSA/CIR/2023/45\<close> does not have
  (\<open>circular_code_matches\<close> shows the pattern on the code alone, and on the two
  spellings it does accept).\<close>

theorem scenario_yields_regulation_only:
  "main True llm b
     [\<lparr>p_page = 1,
       p_text = ''Refer to SEBI/HO/MRD/DSA/CIR/2023/45 dated Jan 1, 2023 and Regulation 9(1).'',
       p_urls = []\<rparr>]
   = Inr [\<lparr>r_type = Regulation, r_title = None, r_identifier = Some ''Regulation 9(1)'',
           r_url = None, r_anchorPageHint = None, r_pages = [1],
           r_snippets =
             [''Refer to SEBI/HO/MRD/DSA/CIR/2023/45 dated Jan 1, 2023 and Regulation 9(1).''],
           r_confidence = 4 / 10\<rparr>]"
  by (rule scenario_run)

section \<open>Regulation citations that share their head word\<close>

text \<open>C2, as the code has it. In "See Regulation 12(3) and 12(3A) of the
  Regulations." detection finds one candidate, the regulation match
  "Regulation 12(3)"; "12(3A)" does not follow the word "Regulation" and is not a match
  of its own (telling the two items apart is left to the normalizer, which sees the
  whole sentence).\<close>

theorem regulation_pair_one_candidate:
  "findCandidates
     [\<lparr>p_page = 1, p_text = ''See Regulation 12(3) and 12(3A) of the Regulations.'',
       p_urls = []\<rparr>]
   = [\<lparr>c_page = 1, c_sentence = ''See Regulation 12(3) and 12(3A) of the Regulations.'',
        c_match = ''Regulation 12(3)'', c_kind = K_regulation, c_url = None\<rparr>]"
  by (rule regulation_pair_candidates)

text \<open>C2 as stated fails: there are not two candidates, and "Regulation 12(3A)" is
  not among the match strings.\<close>

theorem regulation_pair_not_two:
  "length (findCandidates
     [\<lparr>p_page = 1, p_text = ''See Regulation 12(3) and 12(3A) of the Regulations.'',
       p_urls = []\<rparr>]) = 1
   \<and> ''Regulation 12(3A)'' \<notin> set (map c_match (findCandidates
     [\<lparr>p_page = 1, p_text = ''See Regulation 12(3) and 12(3A) of the Regulations.'',
       p_urls = []\<rparr>]))"
  unfolding regulation_pair_candidates by simp

section \<open>Records of different types are not merged\<close>

text \<open>C3, as the code has it. The key under which \<^verbatim>\<open>dedupe\<close> stores a record starts
  with the record's type, so a Circular record and an Other record never share a
  key, whatever their identifiers and titles: both are kept, in input order, each with
  its own type (and with its pages and snippets deduplicated). A merge step never
  changes the type of the stored record.\<close>

theorem circular_other_kept_apart:
  assumes "r_type r1 = Circular" and "r_type r2 = Other"
  shows "dedupe [r1, r2] = [firstSeen r1, firstSeen r2]
     \<and> map r_type (dedupe [r1, r2]) = [Circular, Other]
     \<and> r_type (mergeInto found r) = r_type found"
proof -
  from assms have "key r1 \<noteq> key r2" by (rule key_type_differs)
  then have "dedupe [r1, r2] = [firstSeen r1, firstSeen r2]"
    by (simp add: dedupe_def dedupeStep_def)
  with assms show ?thesis by (simp add: firstSeen_frame mergeInto_frame)
qed

text \<open>The amended C3 at two records with the same identifier and title.\<close>

theorem circular_other_kept_apart_witness:
  "dedupe
     [\<lparr>r_type = Circular, r_title = Some ''Listing Norms'', r_identifier = Some ''CIR/2023/45'',
       r_url = None, r_anchorPageHint = None, r_pages = [2], r_snippets = [''first''],
       r_confidence = 9 / 10\<rparr>,
      \<lparr>r_type = Other, r_title = Some ''Listing Norms'', r_identifier = Some ''CIR/2023/45'',
       r_url = None, r_anchorPageHint = None, r_pages = [4], r_snippets = [''second''],
       r_confidence = 5 / 10\<rparr>]
   = [\<lparr>r_type = Circular, r_title = Some ''Listing Norms'', r_identifier = Some ''CIR/2023/45'',
       r_url = None, r_anchorPageHint = None, r_pages = [2], r_snippets = [''first''],
       r_confidence = 9 / 10\<rparr>,
      \<lparr>r_type = Other, r_title = Some ''Listing Norms'', r_identifier = Some ''CIR/2023/45'',
       r_url = None, r_anchorPageHint = None, r_pages = [4], r_snippets = [''second''],
       r_confidence = 5 / 10\<rparr>]"
  using circular_other_kept_apart
    [of "\<lparr>r_type = Circular, r_title = Some ''Listing Norms'', r_identifier = Some ''CIR/2023/45'',
       r_url = None, r_anchorPageHint = None, r_pages = [2], r_snippets = [''first''],
       r_confidence = 9 / 10\<rparr>"
       "\<lparr>r_type = Other, r_title = Some ''Listing Norms'', r_identifier = Some ''CIR/2023/45'',
       r_url = None, r_anchorPageHint = None, r_pages = [4], r_snippets = [''second''],
       r_confidence = 5 / 10\<rparr>"]
  by (simp add: firstSeen_def arrayFromSet_def setAdd_def)

text \<open>C3 as stated fails: a Circular record and an Other record with the same
  identifier and title come out as two records, not one.\<close>

theorem circular_other_not_merged:
  "length (dedupe
     [\<lparr>r_type = Circular, r_title = Some ''Listing Norms'', r_identifier = Some ''CIR/2023/45'',
       r_url = None, r_anchorPageHint = None, r_pages = [2], r_snippets = [''first''],
       r_confidence = 9 / 10\<rparr>,
      \<lparr>r_type = Other, r_title = Some ''Listing Norms'', r_identifier = Some ''CIR/2023/45'',
       r_url = None, r_anchorPageHint = None, r_pages = [4], r_snippets = [''second''],
       r_confidence = 5 / 10\<rparr>]) = 2"
  by (simp add: dedupe_def dedupeStep_def key_def)

section \<open>Merging does not depend on the order\<close>

text \<open>C4. For a non-empty collection of records that all have the same merge key,
  \<^verbatim>\<open>dedupe\<close> returns one record: its pages are the sorted union of all pages,
  its snippets are (as a set) the union of all snippets, and its confidence is the
  maximum of all confidences. Any other arrangement \<open>items'\<close> of the same records
  gives the same pages, the same set of snippets and the same confidence.\<close>

theorem merge_order_independent:
  assumes "items \<noteq> []" and "\<forall>r \<in> set items. key r = k" and "set items' = set items"
  shows "\<exists>m m'. dedupe items = [m] \<and> dedupe items' = [m']
     \<and> r_pages m = sorted_list_of_set (\<Union>r \<in> set items. set (r_pages r))
     \<and> set (r_snippets m) = (\<Union>r \<in> set items. set (r_snippets r))
     \<and> r_confidence m = Max (r_confidence ` set items)
     \<and> r_pages m' = r_pages m
     \<and> set (r_snippets m') = set (r_snippets m)
     \<and> r_confidence m' = r_confidence m"
proof -
  from assms have ne': "items' \<noteq> []" and k': "\<forall>r \<in> set items'. key r = k" by auto
  from dedupe_same_key_result [OF assms(1,2)] obtain m where
    m: "dedupe items = [m]" "r_pages m = sorted_list_of_set (\<Union>r \<in> set items. set (r_pages r))"
     "set (r_snippets m) = (\<Union>r \<in> set items. set (r_snippets r))"
     "r_confidence m = Max (r_confidence ` set items)" by blast
  from dedupe_same_key_result [OF ne' k'] obtain m' where
    m': "dedupe items' = [m']" "r_pages m' = sorted_list_of_set (\<Union>r \<in> set items'. set (r_pages r))"
     "set (r_snippets m') = (\<Union>r \<in> set items'. set (r_snippets r))"
     "r_confidence m' = Max (r_confidence ` set items')" by blast
  from m m' assms(3) show ?thesis by simp
qed

text \<open>C4 at three records whose identifiers differ only in case, merged in the order
  C, A, B.\<close>

theorem merge_order_independent_witness:
  "r_pages (hd (dedupe
     [\<lparr>r_type = Regulation, r_title = None, r_identifier = Some ''regulation 9(1)'',
       r_url = None, r_anchorPageHint = None, r_pages = [5], r_snippets = [''s3''],
       r_confidence = 7 / 10\<rparr>,
      \<lparr>r_type = Regulation, r_title = None, r_identifier = Some ''Regulation 9(1)'',
       r_url = None, r_anchorPageHint = None, r_pages = [3, 1], r_snippets = [''s1''],
       r_confidence = 3 / 10\<rparr>,
      \<lparr>r_type = Regulation, r_title = None, r_identifier = Some ''REGULATION 9(1)'',
       r_url = None, r_anchorPageHint = None, r_pages = [2, 3], r_snippets = [''s2'', ''s1''],
       r_confidence = 9 / 10\<rparr>])) = [1, 2, 3, 5]
   \<and> set (r_snippets (hd (dedupe
     [\<lparr>r_type = Regulation, r_title = None, r_identifier = Some ''regulation 9(1)'',
       r_url = None, r_anchorPageHint = None, r_pages = [5], r_snippets = [''s3''],
       r_confidence = 7 / 10\<rparr>,
      \<lparr>r_type = Regulation, r_title = None, r_identifier = Some ''Regulation 9(1)'',
       r_url = None, r_anchorPageHint = None, r_pages = [3, 1], r_snippets = [''s1''],
       r_confidence = 3 / 10\<rparr>,
      \<lparr>r_type = Regulation, r_title = None, r_identifier = Some ''REGULATION 9(1)'',
       r_url = None, r_anchorPageHint = None, r_pages = [2, 3], r_snippets = [''s2'', ''s1''],
       r_confidence = 9 / 10\<rparr>]))) = {''s1'', ''s2'', ''s3''}
   \<and> r_confidence (hd (dedupe
     [\<lparr>r_type = Regulation, r_title = None, r_identifier = Some ''regulation 9(1)'',
       r_url = None, r_anchorPageHint = None, r_pages = [5], r_snippets = [''s3''],
       r_confidence = 7 / 10\<rparr>,
      \<lparr>r_type = Regulation, r_title = None, r_identifier = Some ''Regulation 9(1)'',
       r_url = None, r_anchorPageHint = None, r_pages = [3, 1], r_snippets = [''s1''],
       r_confidence = 3 / 10\<rparr>,
      \<lparr>r_type = Regulation, r_title = None, r_identifier = Some ''REGULATION 9(1)'',
       r_url = None, r_anchorPageHint = None, r_pages = [2, 3], r_snippets = [''s2'', ''s1''],
       r_confidence = 9 / 10\<rparr>])) = 9 / 10"
proof -
  let ?A = "\<lparr>r_type = Regulation, r_title = None, r_identifier = Some ''Regulation 9(1)'',
       r_url = None, r_anchorPageHint = None, r_pages = [3, 1], r_snippets = [''s1''],
       r_confidence = 3 / 10\<rparr>"
  let ?B = "\<lparr>r_type = Regulation, r_title = None, r_identifier = Some ''REGULATION 9(1)'',
       r_url = None, r_anchorPageHint = None, r_pages = [2, 3], r_snippets = [''s2'', ''s1''],
       r_confidence = 9 / 10\<rparr>"
  let ?C = "\<lparr>r_type = Regulation, r_title = None, r_identifier = Some ''regulation 9(1)'',
       r_url = None, r_anchorPageHint = None, r_pages = [5], r_snippets = [''s3''],
       r_confidence = 7 / 10\<rparr>"
  have h1: "[?A, ?B, ?C] \<noteq> []" by simp
  have kA: "key ?A = ''Regulation|regulation 9(1)|''" by code_simp
  have kB: "key ?B = ''Regulation|regulation 9(1)|''" by code_simp
  have kC: "key ?C = ''Regulation|regulation 9(1)|''" by code_simp
  have h2: "\<forall>r \<in> set [?A, ?B, ?C]. key r = ''Regulation|regulation 9(1)|''"
    by (simp add: kA kB kC)
  have h3: "set [?C, ?A, ?B] = set [?A, ?B, ?C]" by (simp add: insert_commute)
  from merge_order_independent [OF h1 h2 h3] obtain m m' where
    m: "dedupe [?A, ?B, ?C] = [m]" and m': "dedupe [?C, ?A, ?B] = [m']"
    and p: "r_pages m' = r_pages m" and s: "set (r_snippets m') = set (r_snippets m)"
    and c: "r_confidence m' = r_confidence m" by blast
  from m have mM: "m = \<lparr>r_type = Regulation, r_title = None,
        r_identifier = Some ''Regulation 9(1)'',
        r_url = None, r_anchorPageHint = None, r_pages = [1, 2, 3, 5],
        r_snippets = [''s1'', ''s2'', ''s3''], r_confidence = 9 / 10\<rparr>"
    unfolding three_records_merged by simp
  have p': "r_pages m' = [1, 2, 3, 5]" unfolding p mM by simp
  have s': "set (r_snippets m') = {''s1'', ''s2'', ''s3''}" unfolding s mM by simp
  have c': "r_confidence m' = 9 / 10" unfolding c mM by simp
  show ?thesis unfolding m' list.sel p' s' c' by simp
qed

section \<open>What a merge step leaves alone\<close>

text \<open>C5, as the code has it. When a record \<open>r\<close> arrives under a key that already
  holds \<open>found\<close>, the stored record keeps its type, title and identifier. Its url
  changes only if the stored url is null or the empty string and the incoming url is
  neither, and then it becomes the incoming url; a stored url that is a non-empty
  string is kept. Likewise its anchorPageHint changes only if the stored hint is null
  or 0 and the incoming hint is neither; a stored non-zero hint is kept.\<close>

theorem merge_step_frame:
  assumes "map_of m (key r) = Some found"
  shows "\<exists>found'. map_of (dedupeStep r m) (key r) = Some found'
     \<and> r_type found' = r_type found \<and> r_title found' = r_title found
     \<and> r_identifier found' = r_identifier found
     \<and> (r_url found' \<noteq> r_url found \<longrightarrow>
          (r_url found = None \<or> r_url found = Some []) \<and> r_url r \<noteq> None \<and> r_url r \<noteq> Some []
          \<and> r_url found' = r_url r)
     \<and> (r_url found \<noteq> None \<and> r_url found \<noteq> Some [] \<longrightarrow> r_url found' = r_url found)
     \<and> (r_anchorPageHint found' \<noteq> r_anchorPageHint found \<longrightarrow>
          (r_anchorPageHint found = None \<or> r_anchorPageHint found = Some 0)
          \<and> r_anchorPageHint r \<noteq> None \<and> r_anchorPageHint r \<noteq> Some 0
          \<and> r_anchorPageHint found' = r_anchorPageHint r)
     \<and> (r_anchorPageHint found \<noteq> None \<and> r_anchorPageHint found \<noteq> Some 0 \<longrightarrow>
          r_anchorPageHint found' = r_anchorPageHint found)"
proof -
  let ?f = "mergeInto found r"
  have a: "map_of (dedupeStep r m) (key r) = Some ?f"
    using assms by (rule map_of_dedupeStep_found)
  have u: "r_url ?f = (if \<not> truthyStr (r_url found) \<and> truthyStr (r_url r) then r_url r else r_url found)"
    by (simp add: mergeInto_def)
  have h: "r_anchorPageHint ?f =
      (if \<not> truthyInt (r_anchorPageHint found) \<and> truthyInt (r_anchorPageHint r)
       then r_anchorPageHint r else r_anchorPageHint found)"
    by (simp add: mergeInto_def)
  have u1: "r_url ?f \<noteq> r_url found \<longrightarrow>
          (r_url found = None \<or> r_url found = Some []) \<and> r_url r \<noteq> None \<and> r_url r \<noteq> Some []
          \<and> r_url ?f = r_url r"
    unfolding u by (auto simp: truthyStr_def split: option.splits)
  have u2: "r_url found \<noteq> None \<and> r_url found \<noteq> Some [] \<longrightarrow> r_url ?f = r_url found"
    unfolding u by (auto simp: truthyStr_def split: option.splits)
  have h1: "r_anchorPageHint ?f \<noteq> r_anchorPageHint found \<longrightarrow>
          (r_anchorPageHint found = None \<or> r_anchorPageHint found = Some 0)
          \<and> r_anchorPageHint r \<noteq> None \<and> r_anchorPageHint r \<noteq> Some 0
          \<and> r_anchorPageHint ?f = r_anchorPageHint r"
    unfolding h by (auto simp: truthyInt_def split: option.splits)
  have h2: "r_anchorPageHint found \<noteq> None \<and> r_anchorPageHint found \<noteq> Some 0 \<longrightarrow>
          r_anchorPageHint ?f = r_anchorPageHint found"
    unfolding h by (auto simp: truthyInt_def split: option.splits)
  from a u1 u2 h1 h2 mergeInto_frame [of found r] show ?thesis
    by blast
qed

text \<open>The amended C5 at a stored record with a url and a hint, met by a record with
  another url and another hint.\<close>

theorem merge_step_frame_witness:
  "\<exists>found'. map_of (dedupeStep
       \<lparr>r_type = Circular, r_title = None, r_identifier = Some ''cir/2023/45'',
        r_url = Some ''https://other.example/b.pdf'', r_anchorPageHint = Some 12,
        r_pages = [4], r_snippets = [''second''], r_confidence = 3 / 10\<rparr>
       [(''Circular|cir/2023/45|'',
         \<lparr>r_type = Circular, r_title = None, r_identifier = Some ''CIR/2023/45'',
          r_url = Some ''https://stored.example/a.pdf'', r_anchorPageHint = Some 7,
          r_pages = [2], r_snippets = [''first''], r_confidence = 9 / 10\<rparr>)])
       ''Circular|cir/2023/45|'' = Some found'
     \<and> r_type found' = Circular \<and> r_title found' = None
     \<and> r_identifier found' = Some ''CIR/2023/45''
     \<and> r_url found' = Some ''https://stored.example/a.pdf''
     \<and> r_anchorPageHint found' = Some 7"
proof -
  let ?r = "\<lparr>r_type = Circular, r_title = None, r_identifier = Some ''cir/2023/45'',
        r_url = Some ''https://other.example/b.pdf'', r_anchorPageHint = Some 12,
        r_pages = [4], r_snippets = [''second''], r_confidence = 3 / 10\<rparr>"
  let ?f = "\<lparr>r_type = Circular, r_title = None, r_identifier = Some ''CIR/2023/45'',
          r_url = Some ''https://stored.example/a.pdf'', r_anchorPageHint = Some 7,
          r_pages = [2], r_snippets = [''first''], r_confidence = 9 / 10\<rparr>"
  have k: "key ?r = ''Circular|cir/2023/45|''" by code_simp
  have h: "map_of [(''Circular|cir/2023/45|'', ?f)] (key ?r) = Some ?f" by (simp add: k)
  from merge_step_frame [OF h] obtain found' where
    a: "map_of (dedupeStep ?r [(''Circular|cir/2023/45|'', ?f)]) (key ?r) = Some found'"
    and b: "r_type found' = r_type ?f" "r_title found' = r_title ?f"
      "r_identifier found' = r_identifier ?f"
    and u: "r_url ?f \<noteq> None \<and> r_url ?f \<noteq> Some [] \<longrightarrow> r_url found' = r_url ?f"
    and n: "r_anchorPageHint ?f \<noteq> None \<and> r_anchorPageHint ?f \<noteq> Some 0 \<longrightarrow>
          r_anchorPageHint found' = r_anchorPageHint ?f"
    by blast
  from u have u': "r_url found' = Some ''https://stored.example/a.pdf''" by simp
  from n have n': "r_anchorPageHint found' = Some 7" by simp
  from a b u' n' show ?thesis unfolding k by (intro exI [of _ found']) simp

qed

text \<open>C5 as stated fails: a stored empty-string url and a stored hint 0 are replaced
  by the incoming url and hint.\<close>

theorem merge_replaces_empty_url_and_zero_hint:
  "map r_url (dedupe
     [\<lparr>r_type = Circular, r_title = None, r_identifier = Some ''CIR/2023/45'',
       r_url = Some [], r_anchorPageHint = Some 0,
       r_pages = [2], r_snippets = [''first''], r_confidence = 9 / 10\<rparr>,
      \<lparr>r_type = Circular, r_title = None, r_identifier = Some ''CIR/2023/45'',
       r_url = Some ''https://other.example/b.pdf#page=110'', r_anchorPageHint = Some 110,
       r_pages = [4], r_snippets = [''second''], r_confidence = 3 / 10\<rparr>])
     = [Some ''https://other.example/b.pdf#page=110'']
   \<and> map r_anchorPageHint (dedupe
     [\<lparr>r_type = Circular, r_title = None, r_identifier = Some ''CIR/2023/45'',
       r_url = Some [], r_anchorPageHint = Some 0,
       r_pages = [2], r_snippets = [''first''], r_confidence = 9 / 10\<rparr>,
      \<lparr>r_type = Circular, r_title = None, r_identifier = Some ''CIR/2023/45'',
       r_url = Some ''https://other.example/b.pdf#page=110'', r_anchorPageHint = Some 110,
       r_pages = [4], r_snippets = [''second''], r_confidence = 3 / 10\<rparr>])
     = [Some 110]"
  by code_simp

section \<open>Snippets are not shortened\<close>

text \<open>C6, as the code has it. The snippets of the records of a finished run are
  exactly the snippets that were handed to \<^verbatim>\<open>dedupe\<close>, none shortened and none
  dropped: in the rules-only run they are exactly the whole sentences of the detected
  candidates (the match text of a candidate whose sentence is empty), in the other
  run exactly the snippets of the records the normalizer returned. So in the
  rules-only run every snippet is at most 200 code units long if and only if the
  sentence (or match) of every detected candidate is.\<close>

theorem snippets_are_evidence_text:
  assumes "main noLlm normalizeWithLLM batchSize pages = Inr out"
  shows "(if noLlm
          then (\<Union>r \<in> set out. set (r_snippets r)) = sentenceOrMatch ` set (findCandidates pages)
          else (findCandidates pages = [] \<and> out = [])
               \<or> (\<exists>normalized.
                     normalizeWithLLM (findCandidates pages) batchSize = Inr normalized
                     \<and> (\<Union>r \<in> set out. set (r_snippets r))
                         = (\<Union>r \<in> set normalized. set (r_snippets r))))
     \<and> (noLlm \<longrightarrow>
          ((\<forall>r \<in> set out. \<forall>sn \<in> set (r_snippets r). length sn \<le> 200)
           \<longleftrightarrow> (\<forall>c \<in> set (findCandidates pages). length (sentenceOrMatch c) \<le> 200)))"
proof -
  have a: "if noLlm
          then (\<Union>r \<in> set out. set (r_snippets r)) = sentenceOrMatch ` set (findCandidates pages)
          else (findCandidates pages = [] \<and> out = [])
               \<or> (\<exists>normalized.
                     normalizeWithLLM (findCandidates pages) batchSize = Inr normalized
                     \<and> (\<Union>r \<in> set out. set (r_snippets r))
                         = (\<Union>r \<in> set normalized. set (r_snippets r)))"
  proof (cases "findCandidates pages = []")
    case True
    with assms have "out = []" by (simp add: main_def)
    with True show ?thesis by simp
  next
    case False
    show ?thesis
    proof (cases noLlm)
      case True
      with False assms have "out = dedupe (map rulesOnly (findCandidates pages))"
        by (simp add: main_def)
      then have "(\<Union>r \<in> set out. set (r_snippets r))
          = sentenceOrMatch ` set (findCandidates pages)"
        by (simp only: dedupe_snippets_union rulesOnly_snippets_union)
      with True show ?thesis by simp
    next
      case nl: False
      with False assms obtain normalized where
        n: "normalizeWithLLM (findCandidates pages) batchSize = Inr normalized"
        and "out = dedupe normalized"
        by (auto simp: main_def split: sum.splits)
      then have "(\<Union>r \<in> set out. set (r_snippets r))
          = (\<Union>r \<in> set normalized. set (r_snippets r))"
        by (simp only: dedupe_snippets_union)
      with n nl show ?thesis by auto
    qed
  qed
  have b: "noLlm \<longrightarrow>
          ((\<forall>r \<in> set out. \<forall>sn \<in> set (r_snippets r). length sn \<le> 200)
           \<longleftrightarrow> (\<forall>c \<in> set (findCandidates pages). length (sentenceOrMatch c) \<le> 200))"
  proof
    assume noLlm
    with a have e: "(\<Union>r \<in> set out. set (r_snippets r))
        = sentenceOrMatch ` set (findCandidates pages)" by simp
    have "(\<forall>r \<in> set out. \<forall>sn \<in> set (r_snippets r). length sn \<le> 200)
        \<longleftrightarrow> (\<forall>sn \<in> (\<Union>r \<in> set out. set (r_snippets r)). length sn \<le> 200)" by blast
    also have "\<dots> \<longleftrightarrow> (\<forall>c \<in> set (findCandidates pages). length (sentenceOrMatch c) \<le> 200)"
      unfolding e by blast
    finally show "(\<forall>r \<in> set out. \<forall>sn \<in> set (r_snippets r). length sn \<le> 200)
           \<longleftrightarrow> (\<forall>c \<in> set (findCandidates pages). length (sentenceOrMatch c) \<le> 200)" .
  qed
  from a b show ?thesis by blast
qed

text \<open>The amended C6 at the rules-only run on the page of the end-to-end scenario: its
  one snippet is the sentence of its one candidate.\<close>

theorem snippets_are_evidence_text_witness:
  "sentenceOrMatch ` set (findCandidates
       [\<lparr>p_page = 1,
         p_text = ''Refer to SEBI/HO/MRD/DSA/CIR/2023/45 dated Jan 1, 2023 and Regulation 9(1).'',
         p_urls = []\<rparr>])
   = {''Refer to SEBI/HO/MRD/DSA/CIR/2023/45 dated Jan 1, 2023 and Regulation 9(1).''}
   \<and> length ''Refer to SEBI/HO/MRD/DSA/CIR/2023/45 dated Jan 1, 2023 and Regulation 9(1).'' \<le> 200"
proof -
  let ?S = "''Refer to SEBI/HO/MRD/DSA/CIR/2023/45 dated Jan 1, 2023 and Regulation 9(1).''"
  let ?P = "[\<lparr>p_page = 1, p_text = ?S, p_urls = []\<rparr>]"
  let ?R = "\<lparr>r_type = Regulation, r_title = None, r_identifier = Some ''Regulation 9(1)'',
           r_url = None, r_anchorPageHint = None, r_pages = [1],
           r_snippets = [?S], r_confidence = 4 / 10\<rparr>"
  have run: "main True (\<lambda>cs n. Inr []) 40 ?P = Inr [?R]" by (rule scenario_run)
  from snippets_are_evidence_text [OF run]
  have u: "(\<Union>r \<in> set [?R]. set (r_snippets r)) = sentenceOrMatch ` set (findCandidates ?P)"
    and b: "(\<forall>r \<in> set [?R]. \<forall>sn \<in> set (r_snippets r). length sn \<le> 200)
           \<longleftrightarrow> (\<forall>c \<in> set (findCandidates ?P). length (sentenceOrMatch c) \<le> 200)"
    by simp_all
  from u have 1: "sentenceOrMatch ` set (findCandidates ?P) = {?S}" by simp
  from b 1 have 2: "length ?S \<le> 200" by simp
  from 1 2 show ?thesis by blast
qed

text \<open>C6 as stated fails: the rules-only run on a page whose one sentence has 242
  code units and cites Regulation 5 returns that whole sentence as a snippet.\<close>

theorem long_sentence_snippet:
  "main True (\<lambda>cs n. Inr []) 40 [\<lparr>p_page = 1, p_text = longSentence, p_urls = []\<rparr>]
   = Inr [\<lparr>r_type = Regulation, r_title = None, r_identifier = Some ''Regulation 5'',
           r_url = None, r_anchorPageHint = None, r_pages = [1],
           r_snippets = [longSentence], r_confidence = 4 / 10\<rparr>]
   \<and> length longSentence = 242"
proof -
  have "main True (\<lambda>cs n. Inr []) 40 [\<lparr>p_page = 1, p_text = longSentence, p_urls = []\<rparr>]
   = Inr [\<lparr>r_type = Regulation, r_title = None, r_identifier = Some ''Regulation 5'',
           r_url = None, r_anchorPageHint = None, r_pages = [1],
           r_snippets = [longSentence], r_confidence = 4 / 10\<rparr>]"
    unfolding main_def long_sentence_candidates by code_simp
  with long_sentence_length show ?thesis by blast
qed

section \<open>Segmenting a text without a split point\<close>

text \<open>C7. \<^verbatim>\<open>splitSentences\<close> never returns the empty list (so not for a non-empty
  text either), and for a text without a split point it returns the one-element list
  of the trimmed text.\<close>

theorem splitSentences_nonempty_single:
  "splitSentences s \<noteq> [] \<and> (\<not> hasSplitPoint s \<longrightarrow> splitSentences s = [trim s])"
proof
  show "splitSentences s \<noteq> []" by (simp add: splitSentences_def Let_def)
  show "\<not> hasSplitPoint s \<longrightarrow> splitSentences s = [trim s]"
    by (simp add: splitSentences_def Let_def str_split_no_split_point)
qed

text \<open>C7 at a text with a semicolon and periods but no split point.\<close>

theorem splitSentences_nonempty_single_witness:
  "\<not> hasSplitPoint ''  The Board may, by order; specify e.g. such other terms. ''
   \<and> splitSentences ''  The Board may, by order; specify e.g. such other terms. ''
     = [''The Board may, by order; specify e.g. such other terms.'']"
proof -
  have h: "\<not> hasSplitPoint ''  The Board may, by order; specify e.g. such other terms. ''"
    by code_simp
  have t: "trim ''  The Board may, by order; specify e.g. such other terms. ''
     = ''The Board may, by order; specify e.g. such other terms.''"
    by code_simp
  from splitSentences_nonempty_single
    [of "''  The Board may, by order; specify e.g. such other terms. ''"] h t
  show ?thesis by simp
qed

section \<open>A run without candidates\<close>

text \<open>C8. When detection finds no candidate the run ends normally with the empty
  reference list, with or without \<^verbatim>\<open>--no-llm\<close> and whatever the normalizer would
  do.\<close>

theorem no_candidates_empty_output:
  "findCandidates pages = [] \<Longrightarrow> main noLlm normalizeWithLLM batchSize pages = Inr []"
  by (simp add: main_def)

text \<open>C8 at a page that cites nothing, with a normalizer that would fail.\<close>

theorem no_candidates_empty_output_witness:
  "findCandidates
     [\<lparr>p_page = 3, p_text = ''Nothing is cited on this page.  It has two sentences.'',
       p_urls = []\<rparr>] = []
   \<and> main False (\<lambda>cs n. Inl (Fatal ''OPENAI_API_KEY not set in environment.'')) 40
     [\<lparr>p_page = 3, p_text = ''Nothing is cited on this page.  It has two sentences.'',
       p_urls = []\<rparr>] = Inr []"
  using no_candidates_empty_output [OF quiet_page_candidates] quiet_page_candidates by blast

section \<open>Candidates are told apart by a key string\<close>

text \<open>The candidates \<^verbatim>\<open>findCandidates\<close> returns have pairwise different
  quadruples (page, kind, match, sentence); each of them is one of the candidates
  found on the pages, and every key found on the pages is the key of a returned
  candidate.\<close>

lemma candidates_distinct_quadruples:
  "distinct (map quadruple (findCandidates pages))
   \<and> set (findCandidates pages) \<subseteq> set (concat (map pageCandidates pages))
   \<and> candidateKey ` set (findCandidates pages)
       = candidateKey ` set (concat (map pageCandidates pages))"
proof -
  let ?res = "concat (map pageCandidates pages)"
  let ?al = "fold uniqStep ?res []"
  have fc: "findCandidates pages = map snd ?al" by (simp add: findCandidates_def)
  have k: "map fst ?al = map (candidateKey \<circ> snd) ?al"
    by (rule fold_uniqStep_keys) simp
  have "distinct (map fst ?al)" by (rule fold_uniqStep_distinct) simp
  then have "distinct (map candidateKey (map snd ?al))" by (simp add: k)
  then have a: "distinct (map quadruple (findCandidates pages))"
    unfolding fc by (rule distinct_keys_quadruples)
  have b: "set (findCandidates pages) \<subseteq> set ?res"
    using fold_uniqStep_subset [of ?res "[]"] by (simp add: fc)
  have "candidateKey ` set (map snd ?al) = set (map (candidateKey \<circ> snd) ?al)"
    by (simp add: image_image)
  also have "\<dots> = fst ` set ?al" by (simp add: k [symmetric])
  also have "\<dots> = candidateKey ` set ?res"
    using fold_uniqStep_key_image [of ?res "[]"] by simp
  finally have c: "candidateKey ` set (findCandidates pages) = candidateKey ` set ?res"
    by (simp add: fc)
  from a b c show ?thesis by blast
qed

text \<open>A page on which the same sentence stands twice: its match is returned once.\<close>

lemma repeated_sentence_once:
  "findCandidates [\<lparr>p_page = 4, p_text = ''See Regulation 5. See Regulation 5.'', p_urls = []\<rparr>]
   = [\<lparr>c_page = 4, c_sentence = ''See Regulation 5.'', c_match = ''Regulation 5'',
        c_kind = K_regulation, c_url = None\<rparr>]"
proof -
  let ?P = "[\<lparr>p_page = 4, p_text = ''See Regulation 5. See Regulation 5.'', p_urls = []\<rparr>]"
  let ?c = "\<lparr>c_page = 4, c_sentence = ''See Regulation 5.'', c_match = ''Regulation 5'',
        c_kind = K_regulation, c_url = None\<rparr>"
  from candidates_distinct_quadruples [of ?P]
  have d: "distinct (map quadruple (findCandidates ?P))"
    and sub: "set (findCandidates ?P) \<subseteq> set [?c, ?c]"
    and img: "candidateKey ` set (findCandidates ?P) = candidateKey ` set [?c, ?c]"
    unfolding repeated_sentence_results by blast+
  from img have ne: "findCandidates ?P \<noteq> []" by auto
  from d have "distinct (findCandidates ?P)" by (simp add: distinct_map)
  moreover from sub have "set (findCandidates ?P) \<subseteq> {?c}" by simp
  ultimately show ?thesis using ne by (rule only_element)
qed

text \<open>C9. Deduplication is meant to drop exact duplicates, candidates with the same
  (page, kind, match, sentence). The map is keyed by the four parts joined with
  \<^verbatim>\<open>|\<close>, and a match or a sentence can contain \<^verbatim>\<open>|\<close> itself, so two
  candidates with different quadruples can have the same key. On the page below
  detection finds four candidates with four different quadruples; the fourth has the
  key of the first and is dropped, so three are returned and the quadruple of the
  fourth is not among them.\<close>

theorem key_collision_drops_candidate:
  "distinct (map quadruple (concat (map pageCandidates
     [\<lparr>p_page = 1,
       p_text = ''See https://x.in/a|B https://x.in/a now. B|See https://x.in/a|B https://x.in/a now.'',
       p_urls = []\<rparr>])))
   \<and> length (concat (map pageCandidates
     [\<lparr>p_page = 1,
       p_text = ''See https://x.in/a|B https://x.in/a now. B|See https://x.in/a|B https://x.in/a now.'',
       p_urls = []\<rparr>])) = 4
   \<and> length (findCandidates
     [\<lparr>p_page = 1,
       p_text = ''See https://x.in/a|B https://x.in/a now. B|See https://x.in/a|B https://x.in/a now.'',
       p_urls = []\<rparr>]) = 3
   \<and> (1, K_url, ''https://x.in/a'', ''B|See https://x.in/a|B https://x.in/a now.'')
       \<in> set (map quadruple (concat (map pageCandidates
     [\<lparr>p_page = 1,
       p_text = ''See https://x.in/a|B https://x.in/a now. B|See https://x.in/a|B https://x.in/a now.'',
       p_urls = []\<rparr>])))
   \<and> (1, K_url, ''https://x.in/a'', ''B|See https://x.in/a|B https://x.in/a now.'')
       \<notin> set (map quadruple (findCandidates
     [\<lparr>p_page = 1,
       p_text = ''See https://x.in/a|B https://x.in/a now. B|See https://x.in/a|B https://x.in/a now.'',
       p_urls = []\<rparr>]))"
  unfolding collision_results collision_candidates by (simp add: quadruple_def)

section \<open>The url of a url candidate\<close>

text \<open>C10. In a sentence with at least two URL tokens \<open>u1\<close>, \<open>u2\<close>, ... the url
  candidates are, in order, one per token: the match field is the token (trimming
  does not change a URL match) and the url field is the first token \<open>u1\<close> for all of them, so from the second
  candidate on the two fields can differ. The rules-only record of each takes its url
  from the match field.\<close>

theorem url_candidates_share_first_url:
  assumes "str_match (PATTERNS K_url) s = u1 # u2 # us"
  shows "filter (\<lambda>c. c_kind c = K_url) (sentenceCandidates pg s)
       = map (\<lambda>m. \<lparr>c_page = pg, c_sentence = trim s, c_match = m, c_kind = K_url,
                   c_url = Some u1\<rparr>) (u1 # u2 # us)
     \<and> map r_url (map rulesOnly (filter (\<lambda>c. c_kind c = K_url) (sentenceCandidates pg s)))
       = map Some (u1 # u2 # us)"
proof -
  have f: "firstUrl s = Some u1" using assms by (simp add: firstUrl_def)
  have t: "\<forall>m \<in> set (u1 # u2 # us). trim m = m"
    using url_match_trimmed [of _ s] unfolding assms by blast
  have c: "filter (\<lambda>c. c_kind c = K_url) (sentenceCandidates pg s)
       = map (\<lambda>m. \<lparr>c_page = pg, c_sentence = trim s, c_match = m, c_kind = K_url,
                   c_url = Some u1\<rparr>) (u1 # u2 # us)"
    unfolding url_candidates_of_sentence f assms using t by (intro map_cong) auto
  show ?thesis unfolding c by (simp add: rulesOnly_def)
qed

text \<open>C10 at a sentence with two URLs: the second candidate has the second URL as its
  match and the first URL as its url, and its record has the second URL.\<close>

theorem url_candidates_share_first_url_witness:
  "filter (\<lambda>c. c_kind c = K_url)
     (sentenceCandidates 2 ''See https://a.example/x and https://b.example/y#page=7 for details'')
   = [\<lparr>c_page = 2,
        c_sentence = ''See https://a.example/x and https://b.example/y#page=7 for details'',
        c_match = ''https://a.example/x'', c_kind = K_url,
        c_url = Some ''https://a.example/x''\<rparr>,
      \<lparr>c_page = 2,
        c_sentence = ''See https://a.example/x and https://b.example/y#page=7 for details'',
        c_match = ''https://b.example/y#page=7'', c_kind = K_url,
        c_url = Some ''https://a.example/x''\<rparr>]
   \<and> map r_url (map rulesOnly (filter (\<lambda>c. c_kind c = K_url)
     (sentenceCandidates 2 ''See https://a.example/x and https://b.example/y#page=7 for details'')))
   = [Some ''https://a.example/x'', Some ''https://b.example/y#page=7'']"
  using url_candidates_share_first_url [OF two_urls_matches, of 2]
  unfolding list.map two_urls_trim .

end
